theory Spec2Isabelle
  imports Complex_Main
begin

unbundle bit_operations_syntax

section \<open>Python values used by \<open>quarry/types/chunk.py\<close>\<close>

text \<open>
  Python integers are unbounded, so they are \<open>int\<close>; \<open>//\<close> and \<open>%\<close> round towards minus
  infinity as \<open>div\<close> and \<open>mod\<close> on \<open>int\<close> do; \<open>x >> k\<close> is \<open>drop_bit k x\<close>, \<open>x << k\<close> is
  \<open>push_bit k x\<close>, and \<open>&\<close>, \<open>|\<close>, \<open>~\<close> are the two's-complement \<open>AND\<close>, \<open>OR\<close>, \<open>NOT\<close>.
  Exceptions are values of type \<open>error\<close>: \<open>IndexError\<close> comes from list subscripts,
  \<open>ValueError\<close> from \<open>math.log\<close>, and the two remaining ones are whatever the block map
  raises when it cannot translate.
\<close>

datatype error = IndexError | ValueError | UnknownDescriptor | UnknownId

definition py_get :: "'a list \<Rightarrow> int \<Rightarrow> error + 'a" where
  \<comment> \<open>\<open>xs[i]\<close>: a negative subscript counts from the end\<close>
  "py_get xs i =
     (if 0 \<le> i \<and> i < int (length xs) then Inr (xs ! nat i)
      else if - int (length xs) \<le> i \<and> i < 0 then Inr (xs ! nat (i + int (length xs)))
      else Inl IndexError)"

definition py_put :: "'a list \<Rightarrow> int \<Rightarrow> 'a \<Rightarrow> error + 'a list" where
  \<comment> \<open>\<open>xs[i] = v\<close>\<close>
  "py_put xs i v =
     (if 0 \<le> i \<and> i < int (length xs) then Inr (xs[nat i := v])
      else if - int (length xs) \<le> i \<and> i < 0 then Inr (xs[nat (i + int (length xs)) := v])
      else Inl IndexError)"

definition py_modify :: "'a list \<Rightarrow> int \<Rightarrow> ('a \<Rightarrow> 'a) \<Rightarrow> error + 'a list" where
  \<comment> \<open>an augmented assignment \<open>xs[i] op= e\<close>: read \<open>xs[i]\<close>, then store\<close>
  "py_modify xs i f = (case py_get xs i of Inl e \<Rightarrow> Inl e | Inr w \<Rightarrow> py_put xs i (f w))"

fun index_of :: "'a list \<Rightarrow> 'a \<Rightarrow> nat option" where
  \<comment> \<open>\<open>xs.index(x)\<close>; \<open>None\<close> stands for the \<open>ValueError\<close> that the caller catches\<close>
  "index_of [] x = None"
| "index_of (y # ys) x = (if y = x then Some 0 else map_option Suc (index_of ys x))"

fun collect :: "('a \<Rightarrow> error + 'b) \<Rightarrow> 'a list \<Rightarrow> error + 'b list" where
  \<comment> \<open>a list comprehension \<open>[f(x) for x in xs]\<close>; the first exception ends it\<close>
  "collect f [] = Inr []"
| "collect f (x # xs) =
     (case f x of Inl e \<Rightarrow> Inl e
      | Inr v \<Rightarrow> (case collect f xs of Inl e \<Rightarrow> Inl e | Inr vs \<Rightarrow> Inr (v # vs)))"

fun ceil_log2 :: "nat \<Rightarrow> nat" where
  \<comment> \<open>\<open>int(math.ceil(math.log(n, 2)))\<close> for \<open>n \<ge> 1\<close>, computed exactly\<close>
  "ceil_log2 n = (if n \<le> 1 then 0 else Suc (ceil_log2 ((n + 1) div 2)))"

declare ceil_log2.simps [simp del]

section \<open>The block map and the block array\<close>

text \<open>
  The block map is a collaborator of the array (\<open>self.block_map\<close>): only its three
  members \<open>encode_block\<close>, \<open>decode_block\<close> and \<open>max_bits\<close> are used. Bit widths are natural
  numbers.
\<close>

record 'd block_map =
  encode_block :: "'d \<Rightarrow> error + int"
  decode_block :: "int \<Rightarrow> error + 'd"
  max_bits :: nat

record 'd block_array =
  block_map :: "'d block_map"
  data :: "int list"
  bits :: nat
  palette :: "int list option"

definition empty_block_array :: "'d block_map \<Rightarrow> 'd block_array" where
  \<comment> \<open>\<open>BlockArray.empty\<close>\<close>
  "empty_block_array bm =
     \<lparr>block_map = bm, data = replicate 256 0, bits = 4, palette = Some [0]\<rparr>"

definition is_empty :: "'d block_array \<Rightarrow> bool" where
  \<comment> \<open>\<open>BlockArray.is_empty\<close>\<close>
  "is_empty s =
     (case palette s of
        Some p \<Rightarrow> p = [0]
      | None \<Rightarrow> \<not> list_ex (\<lambda>w. w \<noteq> 0) (data s))"

definition load_field :: "int list \<Rightarrow> nat \<Rightarrow> int \<Rightarrow> error + int" where
  \<comment> \<open>lines 86 to 97 of \<open>__getitem__\<close>\<close>
  "load_field ds b n =
     (let idx0 = (int b * n) div 64;
          idx1 = (int b * (n + 1) - 1) div 64;
          off0 = nat ((int b * n) mod 64);
          off1 = 64 - off0
      in case py_get ds idx0 of
           Inl e \<Rightarrow> Inl e
         | Inr w0 \<Rightarrow>
             (case (if idx0 = idx1 then Inr (drop_bit off0 w0)
                    else (case py_get ds idx1 of
                            Inl e \<Rightarrow> Inl e
                          | Inr w1 \<Rightarrow> Inr (drop_bit off0 w0 OR push_bit off1 w1))) of
                Inl e \<Rightarrow> Inl e
              | Inr val \<Rightarrow> Inr (val AND (push_bit b 1 - 1))))"

definition getitem :: "'d block_array \<Rightarrow> int \<Rightarrow> error + 'd" where
  \<comment> \<open>\<open>BlockArray.__getitem__\<close> at an integer subscript\<close>
  "getitem s n =
     (case load_field (data s) (bits s) n of
        Inl e \<Rightarrow> Inl e
      | Inr val \<Rightarrow>
          (case (case palette s of None \<Rightarrow> Inr val | Some p \<Rightarrow> py_get p val) of
             Inl e \<Rightarrow> Inl e
           | Inr g \<Rightarrow> decode_block (block_map s) g))"

definition getslice :: "'d block_array \<Rightarrow> error + 'd list" where
  \<comment> \<open>\<open>self[:]\<close>: the subscripts are \<open>xrange(0, 4096)\<close>\<close>
  "getslice s = collect (getitem s) (map int [0..<4096])"

partial_function (option) iter_from ::
    "'d block_array \<Rightarrow> int \<Rightarrow> 'd list \<Rightarrow> (error + 'd list) option" where
  \<comment> \<open>\<open>Sequence.__iter__\<close>: subscripts 0, 1, 2, ... until \<open>IndexError\<close>;
      \<open>None\<close> is a loop that never ends\<close>
  "iter_from s i acc =
     (case getitem s i of
        Inl e \<Rightarrow> (if e = IndexError then Some (Inr (rev acc)) else Some (Inl e))
      | Inr v \<Rightarrow> iter_from s (i + 1) (v # acc))"

definition store_field ::
    "int list \<Rightarrow> nat \<Rightarrow> int \<Rightarrow> int \<Rightarrow> (error + unit) \<times> int list" where
  \<comment> \<open>lines 122 to 136 of \<open>__setitem__\<close>; the list is returned as the exception leaves it\<close>
  "store_field ds b n val =
     (let idx0 = (int b * n) div 64;
          idx1 = (int b * (n + 1) - 1) div 64;
          off0 = nat ((int b * n) mod 64);
          off1 = 64 - off0;
          mask0 = push_bit off0 (push_bit b 1 - 1);
          mask1 = drop_bit off1 (push_bit b 1 - 1)
      in case py_modify ds idx0 (\<lambda>w. w AND ((2 ^ 64 - 1) AND NOT mask0)) of
           Inl e \<Rightarrow> (Inl e, ds)
         | Inr ds1 \<Rightarrow>
         (case py_modify ds1 idx0 (\<lambda>w. w OR ((2 ^ 64 - 1) AND mask0 AND push_bit off0 val)) of
           Inl e \<Rightarrow> (Inl e, ds1)
         | Inr ds2 \<Rightarrow>
             if idx0 \<noteq> idx1 then
               (case py_modify ds2 idx1 (\<lambda>w. w AND NOT mask1) of
                  Inl e \<Rightarrow> (Inl e, ds2)
                | Inr ds3 \<Rightarrow>
                (case py_modify ds3 idx1 (\<lambda>w. w OR (mask1 AND drop_bit off1 val)) of
                  Inl e \<Rightarrow> (Inl e, ds3)
                | Inr ds4 \<Rightarrow> (Inr (), ds4)))
             else (Inr (), ds2)))"

definition new_palette ::
    "('d list \<Rightarrow> 'd list) \<Rightarrow> 'd block_array \<Rightarrow> int option
       \<Rightarrow> (error + (int list \<times> int) option) option" where
  \<comment> \<open>lines 46 to 56 of \<open>repack\<close>: the candidate palette and its length.
      \<open>so\<close> is the order in which \<open>set(self)\<close> is iterated; \<open>Inr None\<close> is the early return\<close>
  "new_palette so s reserve =
     (case reserve of
        None \<Rightarrow>
          (case iter_from s 0 [] of
             None \<Rightarrow> None
           | Some (Inl e) \<Rightarrow> Some (Inl e)
           | Some (Inr vals) \<Rightarrow>
               (case collect (encode_block (block_map s)) (so vals) of
                  Inl e \<Rightarrow> Some (Inl e)
                | Inr pal \<Rightarrow> Some (Inr (Some (pal, int (length pal))))))
      | Some r \<Rightarrow>
          (case palette s of
             None \<Rightarrow> Some (Inr None)
           | Some p \<Rightarrow> Some (Inr (Some (p, int (length p) + r)))))"

definition new_bits ::
    "'d block_array \<Rightarrow> int list \<Rightarrow> int \<Rightarrow> error + (nat \<times> int list option)" where
  \<comment> \<open>lines 59 to 65 of \<open>repack\<close>; \<open>math.log\<close> raises on a length that is not positive\<close>
  "new_bits s pal palette_len =
     (if palette_len \<le> 0 then Inl ValueError
      else let b = ceil_log2 (nat palette_len)
           in if b \<le> 8 then (if b < 4 then Inr (4, Some pal) else Inr (b, Some pal))
              else Inr (max_bits (block_map s), None))"

fun setslice ::
    "('s \<Rightarrow> int \<Rightarrow> 'd \<Rightarrow> ((error + unit) \<times> 's) option) \<Rightarrow> 'd list \<Rightarrow> int list \<Rightarrow> 's
       \<Rightarrow> ((error + unit) \<times> 's) option" where
  \<comment> \<open>\<open>self[:] = val\<close>: \<open>for o in xrange(0, 4096): self[o] = val[o]\<close>, with the
      assignment at one subscript as a parameter\<close>
  "setslice w vals [] s = Some (Inr (), s)"
| "setslice w vals (i # is) s =
     (case py_get vals i of
        Inl e \<Rightarrow> Some (Inl e, s)
      | Inr v \<Rightarrow>
          (case w s i v of
             None \<Rightarrow> None
           | Some (Inl e, s') \<Rightarrow> Some (Inl e, s')
           | Some (Inr u, s') \<Rightarrow> setslice w vals is s'))"

text \<open>
  \<open>__setitem__\<close> calls \<open>repack(reserve=1)\<close>, and \<open>repack\<close> assigns to \<open>self[:]\<close>, which
  calls \<open>__setitem__\<close> at every subscript. The first argument bounds the depth of these
  nested calls; \<open>None\<close> means that the bound was reached or that the iteration over
  \<open>self\<close> did not end.
\<close>

fun setitem ::
    "nat \<Rightarrow> ('d list \<Rightarrow> 'd list) \<Rightarrow> 'd block_array \<Rightarrow> int \<Rightarrow> 'd
       \<Rightarrow> ((error + unit) \<times> 'd block_array) option"
and repack ::
    "nat \<Rightarrow> ('d list \<Rightarrow> 'd list) \<Rightarrow> 'd block_array \<Rightarrow> int option
       \<Rightarrow> ((error + unit) \<times> 'd block_array) option" where
  "setitem 0 so s n d = None"
| "setitem (Suc k) so s n d =
     (case encode_block (block_map s) d of
        Inl e \<Rightarrow> Some (Inl e, s)
      | Inr g \<Rightarrow>
          (case (case palette s of
                   None \<Rightarrow> Some (Inr g, s)
                 | Some p \<Rightarrow>
                     (case index_of p g of
                        Some j \<Rightarrow> Some (Inr (int j), s)
                      | None \<Rightarrow>
                          (case repack k so s (Some 1) of
                             None \<Rightarrow> None
                           | Some (Inl e, s1) \<Rightarrow> Some (Inl e, s1)
                           | Some (Inr u, s1) \<Rightarrow>
                               (case palette s1 of
                                  None \<Rightarrow> Some (Inr g, s1)
                                | Some p1 \<Rightarrow>
                                    Some (Inr (int (length (p1 @ [g])) - 1),
                                          s1\<lparr>palette := Some (p1 @ [g])\<rparr>))))) of
             None \<Rightarrow> None
           | Some (Inl e, s2) \<Rightarrow> Some (Inl e, s2)
           | Some (Inr val, s2) \<Rightarrow>
               (case store_field (data s2) (bits s2) n val of
                  (r, ds) \<Rightarrow> Some (r, s2\<lparr>data := ds\<rparr>))))"
| "repack 0 so s reserve = None"
| "repack (Suc k) so s reserve =
     (case new_palette so s reserve of
        None \<Rightarrow> None
      | Some (Inl e) \<Rightarrow> Some (Inl e, s)
      | Some (Inr None) \<Rightarrow> Some (Inr (), s)
      | Some (Inr (Some (pal, palette_len))) \<Rightarrow>
          (case new_bits s pal palette_len of
             Inl e \<Rightarrow> Some (Inl e, s)
           | Inr (b, pal') \<Rightarrow>
               if bits s = b then Some (Inr (), s)
               else
                 (case getslice s of
                    Inl e \<Rightarrow> Some (Inl e, s)
                  | Inr values \<Rightarrow>
                      setslice (\<lambda>s' n v. setitem k so s' n v) values (map int [0..<4096])
                        (s\<lparr>data := replicate (64 * b) 0, bits := b, palette := pal'\<rparr>))))"

declare setitem.simps [simp del] repack.simps [simp del]

section \<open>The light array\<close>





section \<open>Specification vocabulary\<close>

text \<open>
  The definitions from here on are not part of the program: they say what the theorems
  are about. \<open>fld ds b i\<close> is the \<open>b\<close>-bit number found at bit position \<open>i * b\<close> of the
  word list read as one little-endian bit string, and \<open>gid s i\<close> is the id that cell \<open>i\<close>
  stands for (through the palette when there is one). \<open>low_word\<close> and \<open>high_word\<close> name
  the two words that \<open>store_field\<close> writes.
\<close>

definition words_ok :: "int list \<Rightarrow> bool" where
  "words_ok ds \<longleftrightarrow> (\<forall>w\<in>set ds. take_bit 64 w = w)"

definition fld :: "int list \<Rightarrow> nat \<Rightarrow> nat \<Rightarrow> int" where
  "fld ds b i = horner_sum of_bool 2
     (map (\<lambda>j. bit (ds ! ((i * b + j) div 64)) ((i * b + j) mod 64)) [0..<b])"

definition low_word :: "nat \<Rightarrow> nat \<Rightarrow> int \<Rightarrow> int \<Rightarrow> int" where
  "low_word r b val w =
     (w AND (mask 64 AND NOT (push_bit r (mask b)))) OR (mask 64 AND push_bit r (mask b) AND push_bit r val)"

definition high_word :: "nat \<Rightarrow> nat \<Rightarrow> int \<Rightarrow> int \<Rightarrow> int" where
  "high_word r b val w =
     (w AND NOT (drop_bit (64 - r) (mask b))) OR (drop_bit (64 - r) (mask b) AND drop_bit (64 - r) val)"

text \<open>
  The contract of the block map (section 6 of the specification): decoding inverts
  encoding, every id is a natural number below \<open>2 ^ max_bits\<close>, \<open>max_bits\<close> is positive
  and a field fits a 64-bit word, and id 0 (the content of the empty array) belongs to
  a descriptor.
\<close>

definition valid_id :: "'d block_map \<Rightarrow> int \<Rightarrow> bool" where
  "valid_id bm g \<longleftrightarrow> (\<exists>d. encode_block bm d = Inr g)"

definition wf_block_map :: "'d block_map \<Rightarrow> bool" where
  "wf_block_map bm \<longleftrightarrow>
     0 < max_bits bm \<and> max_bits bm \<le> 64 \<and> valid_id bm 0 \<and>
     (\<forall>d g. encode_block bm d = Inr g \<longrightarrow>
        0 \<le> g \<and> g < 2 ^ max_bits bm \<and> decode_block bm g = Inr d)"

text \<open>
  The invariant of the representation: 64 words of 64 bits per bit of width, every cell
  an id of the block map, and with a palette a width between 4 and 8, no duplicate in the
  palette, room for the palette in the width, and every stored field a palette subscript.
\<close>

definition gid :: "'d block_array \<Rightarrow> nat \<Rightarrow> int" where
  "gid s i = (case palette s of
                None \<Rightarrow> fld (data s) (bits s) i
              | Some p \<Rightarrow> p ! nat (fld (data s) (bits s) i))"

definition array_inv :: "'d block_array \<Rightarrow> bool" where
  "array_inv s \<longleftrightarrow>
     length (data s) = 64 * bits s \<and> words_ok (data s) \<and> 0 < bits s \<and> bits s \<le> 64 \<and>
     (\<forall>i<4096. valid_id (block_map s) (gid s i)) \<and>
     (case palette s of
        None \<Rightarrow> bits s = max_bits (block_map s)
      | Some p \<Rightarrow> 4 \<le> bits s \<and> bits s \<le> 8 \<and> distinct p \<and> length p \<le> 2 ^ bits s \<and>
          (\<forall>i<4096. fld (data s) (bits s) i < int (length p)) \<and>
          (\<forall>g\<in>set p. valid_id (block_map s) g))"

text \<open>
  \<open>cell s i\<close> is the descriptor that a read at \<open>i\<close> returns when it returns. \<open>width\<close> is the
  width that \<open>new_bits\<close> chooses for a palette of \<open>n\<close> entries. \<open>set(self)\<close> is iterated in
  an order that Python does not fix: the order is a parameter of \<open>repack\<close>, and
  \<open>set_order_ok\<close> says that it lists every element once. \<open>walk_palette\<close> is the palette
  that \<open>repack()\<close> builds from it.
\<close>

definition cell :: "'d block_array \<Rightarrow> nat \<Rightarrow> 'd" where
  "cell s i = projr (getitem s (int i))"

definition width :: "'d block_map \<Rightarrow> nat \<Rightarrow> nat" where
  "width bm n = (if n \<le> 256 then max 4 (ceil_log2 n) else max_bits bm)"

definition set_order_ok :: "('d list \<Rightarrow> 'd list) \<Rightarrow> bool" where
  "set_order_ok so \<longleftrightarrow> (\<forall>xs. set (so xs) = set xs \<and> distinct (so xs))"

definition walk_palette :: "('d list \<Rightarrow> 'd list) \<Rightarrow> 'd block_array \<Rightarrow> int list" where
  "walk_palette so s =
     map (\<lambda>d. projr (encode_block (block_map s) d)) (so (map (cell s) [0..<4096]))"

text \<open>
  The reachable states: the empty array, and what a write at a subscript in
  \<open>[0, 4096)\<close> or a \<open>repack\<close> (without \<open>reserve\<close>, or with one that is not negative)
  leaves behind, whether it returns normally or raises, for every bound on the nesting.
\<close>

inductive reachable ::
    "('d list \<Rightarrow> 'd list) \<Rightarrow> 'd block_map \<Rightarrow> 'd block_array \<Rightarrow> bool" for so bm where
  reach_empty: "reachable so bm (empty_block_array bm)"
| reach_write: "reachable so bm s \<Longrightarrow> 0 \<le> n \<Longrightarrow> n < 4096 \<Longrightarrow>
     setitem k so s n d = Some (r, s') \<Longrightarrow> reachable so bm s'"
| reach_repack: "reachable so bm s \<Longrightarrow> (case reserve of None \<Rightarrow> True | Some x \<Rightarrow> 0 \<le> x) \<Longrightarrow>
     repack k so s reserve = Some (r, s') \<Longrightarrow> reachable so bm s'"

text \<open>
  For concrete runs: a block map whose descriptors are the ids themselves, those below
  \<open>2 ^ mb\<close>; a caller that performs a list of writes and stops at the first one that
  does not return normally; and two lists of writes, 17 new ids and 255 new ids.
\<close>

definition opaque_map :: "nat \<Rightarrow> int block_map" where
  "opaque_map mb =
     \<lparr>encode_block = (\<lambda>d. if 0 \<le> d \<and> d < 2 ^ mb then Inr d else Inl UnknownDescriptor),
      decode_block = (\<lambda>g. if 0 \<le> g \<and> g < 2 ^ mb then Inr g else Inl UnknownId),
      max_bits = mb\<rparr>"

definition out_of_range :: "int \<Rightarrow> bool" where
  \<comment> \<open>the subscripts that no Python list of 64 * bits words accepts for a cell\<close>
  "out_of_range n \<longleftrightarrow> 4096 \<le> n \<or> n < - 4096"

fun write_all ::
    "nat \<Rightarrow> ('d list \<Rightarrow> 'd list) \<Rightarrow> 'd block_array \<Rightarrow> (int \<times> 'd) list \<Rightarrow> 'd block_array option" where
  "write_all k so s [] = Some s"
| "write_all k so s ((n, d) # ws) =
     (case setitem k so s n d of
        Some (Inr u, s') \<Rightarrow> write_all k so s' ws
      | _ \<Rightarrow> None)"

definition in_range_writes :: "(int \<times> 'd) list \<Rightarrow> bool" where
  "in_range_writes ws \<longleftrightarrow> (\<forall>n\<in>set (map fst ws). 0 \<le> n \<and> n < 4096)"

definition scenario_writes :: "(int \<times> int) list" where
  "scenario_writes = [(1, 1), (2, 2), (3, 3), (4, 4), (5, 5), (6, 6), (7, 7), (8, 8), (9, 9), (10, 10), (11, 11), (12, 12), (13, 13), (14, 14), (15, 15), (16, 16), (17, 17)]"

definition filling_writes :: "(int \<times> int) list" where
  "filling_writes = map (\<lambda>i. (int i, int i + 1)) [0..<255]"

definition filling_ids :: "int list" where
  "filling_ids = map (\<lambda>i. int i + 1) [0..<255]"

section \<open>Bit fields in the word list\<close>

lemma mask_alt: "push_bit b 1 - 1 = (mask b :: int)"
  by (simp add: mask_eq_exp_minus_1 push_bit_eq_mult)

lemma m64: "(2 ^ 64 - 1 :: int) = mask 64"
  by (simp add: mask_eq_exp_minus_1)

lemma bit_fld:
  "bit (fld ds b i) j \<longleftrightarrow> j < b \<and> bit (ds ! ((i * b + j) div 64)) ((i * b + j) mod 64)"
  by (auto simp add: fld_def bit_horner_sum_bit_iff)

lemma py_get_nat: "k < length xs \<Longrightarrow> py_get xs (int k) = Inr (xs ! k)"
  by (simp add: py_get_def)

lemma py_modify_nat: "k < length xs \<Longrightarrow> py_modify xs (int k) f = Inr (xs[k := f (xs ! k)])"
  by (simp add: py_modify_def py_get_def py_put_def)

lemma idx_facts:
  assumes "0 < b" 
  shows "(int b * int i) div 64 = int (i * b div 64)"
    and "nat ((int b * int i) mod 64) = i * b mod 64"
    and "(int b * (int i + 1) - 1) div 64 = int ((i * b + b - 1) div 64)"
proof -
  have e: "int b * int i = int (i * b)" by (simp add: mult.commute)
  show "(int b * int i) div 64 = int (i * b div 64)" unfolding e by (simp add: zdiv_int)
  show "nat ((int b * int i) mod 64) = i * b mod 64" by (metis e nat_int of_nat_mod of_nat_numeral)
  have "int b * (int i + 1) - 1 = int (i * b + b - 1)" using assms
    by (simp add: algebra_simps of_nat_diff)
  then show "(int b * (int i + 1) - 1) div 64 = int ((i * b + b - 1) div 64)"
    by (simp add: zdiv_int)
qed

lemma idx1_cases:
  assumes "0 < b" "b \<le> 64"
  shows "(i * b + b - 1) div 64 = (if i * b mod 64 + b \<le> 64 then i * b div 64 else Suc (i * b div 64))"
proof -
  define q r where "q = i * b div 64" and "r = i * b mod 64"
  have e: "i * b = 64 * q + r" and r: "r < 64" by (simp_all add: q_def r_def)
  show ?thesis unfolding q_def[symmetric] r_def[symmetric] e using r assms by (auto simp: div_nat_eqI)
qed

lemma pos_split:
  assumes "j < 64"
  shows "(x + j) div 64 = (if x mod 64 + j < 64 then x div 64 else Suc (x div 64))"
    and "(x + j) mod 64 = (if x mod 64 + j < 64 then x mod 64 + j else x mod 64 + j - 64)"
proof -
  define q r where "q = x div 64" and "r = x mod (64::nat)"
  have e: "x = 64 * q + r" and r: "r < 64" by (simp_all add: q_def r_def)
  show "(x + j) div 64 = (if x mod 64 + j < 64 then x div 64 else Suc (x div 64))"
    unfolding q_def[symmetric] r_def[symmetric] e using r assms by (auto simp: div_nat_eqI)
  show "(x + j) mod 64 = (if x mod 64 + j < 64 then x mod 64 + j else x mod 64 + j - 64)"
    unfolding q_def[symmetric] r_def[symmetric] e using r assms by (auto simp: mod_nat_eqI)
qed

lemma word_index_bound:
  assumes "(i::nat) < 4096" shows "i * b div 64 < 64 * b \<or> b = 0"
proof (cases "b = 0")
  case False
  have "i * b < 4096 * b" using assms False by simp
  then have "i * b div 64 < 64 * b" by (simp add: less_mult_imp_div_less)
  then show ?thesis by simp
qed simp

lemma word_index_bound2:
  assumes "(i::nat) < 4096" "0 < b" shows "(i * b + b - 1) div 64 < 64 * b"
proof -
  have "Suc i * b \<le> 4096 * b" using assms by (intro mult_le_mono1) simp
  then have "i * b + b \<le> 4096 * b" by simp
  then have "i * b + b - 1 < 4096 * b" using assms(2) by arith
  then show ?thesis by (simp add: less_mult_imp_div_less)
qed

lemma load_field_nat:
  assumes "length ds = 64 * b" "0 < b" "b \<le> 64" "i < 4096"
  shows "load_field ds b (int i) =
     Inr ((if i * b mod 64 + b \<le> 64 then drop_bit (i * b mod 64) (ds ! (i * b div 64))
           else drop_bit (i * b mod 64) (ds ! (i * b div 64))
                OR push_bit (64 - i * b mod 64) (ds ! Suc (i * b div 64))) AND mask b)"
proof -
  have q: "i * b div 64 < length ds" using word_index_bound[OF assms(4), of b] assms by simp
  have q1: "(i * b + b - 1) div 64 < length ds" using word_index_bound2[OF assms(4,2)] assms by simp
  show ?thesis
  proof (cases "i * b mod 64 + b \<le> 64")
    case True
    then show ?thesis
      unfolding load_field_def Let_def idx_facts[OF assms(2)] mask_alt idx1_cases[OF assms(2,3)]
      using q by (simp add: py_get_nat)
  next
    case False
    then have "Suc (i * b div 64) < length ds" using q1 idx1_cases[OF assms(2,3), of i] by simp
    then show ?thesis
      unfolding load_field_def Let_def idx_facts[OF assms(2)] mask_alt idx1_cases[OF assms(2,3)]
      using q False py_get_nat[of "Suc (i * b div 64)" ds] by (simp add: py_get_nat)
  qed
qed

lemma words_ok_bit: "words_ok ds \<Longrightarrow> k < length ds \<Longrightarrow> bit (ds ! k) j \<Longrightarrow> j < 64"
proof -
  assume a: "words_ok ds" "k < length ds" "bit (ds ! k) j"
  then have "take_bit 64 (ds ! k) = ds ! k" by (simp add: words_ok_def)
  then have "bit (take_bit 64 (ds ! k)) j" using a by simp
  then show "j < 64" by (simp add: bit_take_bit_iff)
qed

lemma load_field_fld:
  assumes "words_ok ds" "length ds = 64 * b" "0 < b" "b \<le> 64" "i < 4096"
  shows "load_field ds b (int i) = Inr (fld ds b i)"
proof -
  have q: "i * b div 64 < length ds" using word_index_bound[OF assms(5), of b] assms by simp
  have w: "\<And>j. bit (ds ! (i * b div 64)) j \<Longrightarrow> j < 64" using words_ok_bit[OF assms(1) q] .
  have "(if i * b mod 64 + b \<le> 64 then drop_bit (i * b mod 64) (ds ! (i * b div 64))
           else drop_bit (i * b mod 64) (ds ! (i * b div 64))
                OR push_bit (64 - i * b mod 64) (ds ! Suc (i * b div 64))) AND mask b = fld ds b i"
  proof (rule bit_eqI)
    fix j
    show "bit ((if i * b mod 64 + b \<le> 64 then drop_bit (i * b mod 64) (ds ! (i * b div 64))
           else drop_bit (i * b mod 64) (ds ! (i * b div 64))
                OR push_bit (64 - i * b mod 64) (ds ! Suc (i * b div 64))) AND mask b) j
        = bit (fld ds b i) j"
    proof (cases "j < b")
      case False
      then show ?thesis by (simp add: bit_fld bit_and_iff bit_mask_iff)
    next
      case True
      then have j: "j < 64" using assms by simp
      define q r where "q = i * b div 64" and "r = i * b mod 64"
      have w': "\<And>j. bit (ds ! q) j \<Longrightarrow> j < 64" using w by (simp add: q_def)
      have P: "(i * b + j) div 64 = (if r + j < 64 then q else Suc q)"
        "(i * b + j) mod 64 = (if r + j < 64 then r + j else r + j - 64)"
        using pos_split[OF j, of "i * b"] by (simp_all add: q_def r_def)
      have "bit ((if r + b \<le> 64 then drop_bit r (ds ! q)
           else drop_bit r (ds ! q) OR push_bit (64 - r) (ds ! Suc q)) AND mask b) j
        = bit (ds ! (if r + j < 64 then q else Suc q)) (if r + j < 64 then r + j else r + j - 64)"
      proof (cases "r + j < 64")
        case A: True
        then show ?thesis using True
          by (auto simp add: bit_and_iff bit_mask_iff bit_or_iff bit_drop_bit_eq bit_push_bit_iff)
      next
        case B: False
        then have nb: "\<not> bit (ds ! q) (r + j)" using w' by fastforce
        have "r < 64" by (simp add: r_def)
        then have e: "j - (64 - r) = r + j - 64" using B by arith
        show ?thesis using True B nb e
          by (auto simp add: bit_and_iff bit_mask_iff bit_or_iff bit_drop_bit_eq bit_push_bit_iff)
      qed
      then show ?thesis using True unfolding bit_fld P q_def r_def by simp
    qed
  qed
  then show ?thesis using load_field_nat[OF assms(2-5)] by simp
qed

subsection \<open>Storing a field\<close>

lemma words_ok_update:
  "words_ok ds \<Longrightarrow> take_bit 64 w = w \<Longrightarrow> words_ok (ds[k := w])"
  unfolding words_ok_def using set_update_subset_insert[of ds k w] by auto

lemma words_ok_nth: "words_ok ds \<Longrightarrow> k < length ds \<Longrightarrow> take_bit 64 (ds ! k) = ds ! k"
  by (simp add: words_ok_def)

lemma bit_low_word:
  "bit (low_word r b val w) j \<longleftrightarrow>
     j < 64 \<and> (if r \<le> j \<and> j < r + b then bit val (j - r) else bit w j)"
  by (auto simp add: low_word_def bit_or_iff bit_and_iff bit_not_iff bit_mask_iff bit_push_bit_iff)

lemma bit_high_word:
  "bit (high_word r b val w) j \<longleftrightarrow>
     (if 64 - r + j < b then bit val (64 - r + j) else bit w j)"
  by (auto simp add: high_word_def bit_or_iff bit_and_iff bit_not_iff bit_mask_iff bit_drop_bit_eq)

lemma py_modify_Suc:
  "Suc k < length xs \<Longrightarrow> py_modify xs (1 + int k) f = Inr (xs[Suc k := f (xs ! Suc k)])"
  using py_modify_nat[of "Suc k" xs f] by simp

lemma store_field_nat:
  assumes "length ds = 64 * b" "0 < b" "b \<le> 64" "i < 4096"
  shows "store_field ds b (int i) val =
     (Inr (), if i * b mod 64 + b \<le> 64
              then ds[i * b div 64 := low_word (i * b mod 64) b val (ds ! (i * b div 64))]
              else ds[i * b div 64 := low_word (i * b mod 64) b val (ds ! (i * b div 64)),
                      Suc (i * b div 64) := high_word (i * b mod 64) b val (ds ! Suc (i * b div 64))])"
proof -
  have q: "i * b div 64 < length ds" using word_index_bound[OF assms(4), of b] assms by simp
  have q1: "(i * b + b - 1) div 64 < length ds" using word_index_bound2[OF assms(4,2)] assms by simp
  show ?thesis
  proof (cases "i * b mod 64 + b \<le> 64")
    case True
    then show ?thesis
      unfolding store_field_def Let_def idx_facts[OF assms(2)] mask_alt m64 idx1_cases[OF assms(2,3)]
      using q by (simp add: py_modify_nat low_word_def)
  next
    case False
    then have "Suc (i * b div 64) < length ds" using q1 idx1_cases[OF assms(2,3), of i] by simp
    then show ?thesis
      unfolding store_field_def Let_def idx_facts[OF assms(2)] mask_alt m64 idx1_cases[OF assms(2,3)]
      using q False
      by (simp add: py_modify_nat py_modify_Suc low_word_def high_word_def)
  qed
qed

lemma take_bit_low_word: "take_bit 64 (low_word r b val w) = low_word r b val w"
  by (rule bit_eqI) (auto simp add: bit_take_bit_iff bit_low_word)

lemma take_bit_high_word:
  assumes "take_bit 64 w = w" "b \<le> 64"
  shows "take_bit 64 (high_word r b val w) = high_word r b val w"
proof (rule bit_eqI)
  fix j
  have "bit w j \<Longrightarrow> j < 64"
    using assms(1) by (metis bit_take_bit_iff)
  then show "bit (take_bit 64 (high_word r b val w)) j = bit (high_word r b val w) j"
    using assms(2) by (auto simp add: bit_take_bit_iff bit_high_word)
qed

lemma store_field_bits:
  assumes "words_ok ds" "length ds = 64 * b" "0 < b" "b \<le> 64" "i < 4096"
  obtains ds' where "store_field ds b (int i) val = (Inr (), ds')"
    and "length ds' = length ds" and "words_ok ds'"
    and "\<And>k j. k < length ds \<Longrightarrow> j < 64 \<Longrightarrow>
           bit (ds' ! k) j =
             (if i * b \<le> 64 * k + j \<and> 64 * k + j < i * b + b
              then bit val (64 * k + j - i * b) else bit (ds ! k) j)"
proof -
  define q r where "q = i * b div 64" and "r = i * b mod 64"
  have e: "i * b = 64 * q + r" and r: "r < 64" by (simp_all add: q_def r_def)
  have q: "q < length ds" using word_index_bound[OF assms(5), of b] assms by (simp add: q_def)
  have q1: "(i * b + b - 1) div 64 < length ds"
    using word_index_bound2[OF assms(5,3)] assms by simp
  define W0 where "W0 = low_word r b val (ds ! q)"
  define W1 where "W1 = high_word r b val (ds ! Suc q)"
  define ds' where "ds' = (if r + b \<le> 64 then ds[q := W0] else ds[q := W0, Suc q := W1])"
  have st: "store_field ds b (int i) val = (Inr (), ds')"
    using store_field_nat[OF assms(2-5), of val]
    by (simp add: ds'_def W0_def W1_def q_def r_def)
  have len: "length ds' = length ds" by (simp add: ds'_def)
  have sq: "Suc q < length ds" if "\<not> r + b \<le> 64"
    using that q1 idx1_cases[OF assms(3,4), of i] by (simp add: q_def r_def)
  have ok: "words_ok ds'"
  proof (cases "r + b \<le> 64")
    case True
    then show ?thesis
      using assms(1) by (simp add: ds'_def W0_def words_ok_update take_bit_low_word)
  next
    case False
    have "take_bit 64 W1 = W1"
      unfolding W1_def using words_ok_nth[OF assms(1) sq[OF False]] assms(4)
      by (rule take_bit_high_word)
    then show ?thesis
      using False assms(1) by (simp add: ds'_def W0_def words_ok_update take_bit_low_word)
  qed
  have bits: "bit (ds' ! k) j =
             (if i * b \<le> 64 * k + j \<and> 64 * k + j < i * b + b
              then bit val (64 * k + j - i * b) else bit (ds ! k) j)"
    if k: "k < length ds" and j: "j < 64" for k j
  proof -
    consider (lo) "k = q" | (hi) "k = Suc q" | (below) "k < q" | (above) "Suc q < k"
      by linarith
    then show ?thesis
    proof cases
      case lo
      have "ds' ! k = W0" using lo q by (auto simp add: ds'_def)
      moreover have "64 * q + j - (64 * q + r) = j - r" by simp
      ultimately show ?thesis using j lo unfolding e W0_def by (auto simp add: bit_low_word)
    next
      case hi
      show ?thesis
      proof (cases "r + b \<le> 64")
        case True
        then have "ds' ! k = ds ! k" using hi by (simp add: ds'_def)
        then show ?thesis using True hi j r unfolding e by auto
      next
        case False
        have "ds' ! k = W1" using hi False k by (simp add: ds'_def)
        moreover have "64 * Suc q + j - (64 * q + r) = 64 - r + j" using r by simp
        ultimately show ?thesis using hi j r False unfolding e W1_def by (auto simp add: bit_high_word)
      qed
    next
      case below
      then have "ds' ! k = ds ! k" by (simp add: ds'_def)
      moreover have "64 * k + j < 64 * q" using below j by simp
      ultimately show ?thesis unfolding e by simp
    next
      case above
      then have "ds' ! k = ds ! k" by (simp add: ds'_def)
      moreover have "64 * q + 128 \<le> 64 * k + j" using above by simp
      ultimately show ?thesis unfolding e using r assms(4) by simp
    qed
  qed
  show thesis using that[OF st len ok bits] .
qed

lemma fld_range: "take_bit b (fld ds b i) = fld ds b i"
  by (rule bit_eqI) (auto simp add: bit_take_bit_iff bit_fld)

lemma fld_nonneg: "0 \<le> fld ds b i"
  by (metis fld_range take_bit_nonnegative)

lemma fld_less: "fld ds b i < 2 ^ b"
  by (metis fld_range take_bit_int_less_exp)

lemma cell_pos_bound:
  assumes "(i::nat) < 4096" "j < b"
  shows "i * b + j < 4096 * b"
proof -
  have "Suc i \<le> 4096" using assms(1) by simp
  then have "Suc i * b \<le> 4096 * b" by (rule mult_le_mono1)
  then have "b + i * b \<le> 4096 * b" by (simp only: mult_Suc)
  then show ?thesis using assms(2) by linarith
qed

lemma fld_zeros:
  assumes "i < 4096" "0 < b"
  shows "fld (replicate (64 * b) 0) b i = 0"
proof (rule bit_eqI)
  fix j
  show "bit (fld (replicate (64 * b) 0) b i) j = bit (0::int) j"
  proof (cases "j < b")
    case True
    have "i * b + j < 4096 * b" using assms(1) True by (rule cell_pos_bound)
    then have "(i * b + j) div 64 < 64 * b" by (simp add: less_mult_imp_div_less)
    then show ?thesis by (simp add: bit_fld)
  qed (simp add: bit_fld)
qed

lemma words_ok_zeros: "words_ok (replicate n 0)"
  by (simp add: words_ok_def)

lemma cells_disjoint:
  assumes "i' \<noteq> i" "j < b"
  shows "\<not> (i * b \<le> i' * b + j \<and> i' * b + j < i * b + (b::nat))"
proof (cases "i' < i")
  case True
  then have "Suc i' * b \<le> i * b" by (intro mult_le_mono1) simp
  then show ?thesis using assms(2) by simp
next
  case False
  then have "Suc i * b \<le> i' * b" using assms(1) by (intro mult_le_mono1) simp
  then show ?thesis by simp
qed

lemma store_field_fld:
  assumes "words_ok ds" "length ds = 64 * b" "0 < b" "b \<le> 64" "i < 4096"
  obtains ds' where "store_field ds b (int i) val = (Inr (), ds')"
    and "length ds' = length ds" and "words_ok ds'"
    and "\<And>i'. i' < 4096 \<Longrightarrow> fld ds' b i' = (if i' = i then take_bit b val else fld ds b i')"
proof -
  obtain ds' where st: "store_field ds b (int i) val = (Inr (), ds')"
    and len: "length ds' = length ds" and ok: "words_ok ds'"
    and bits: "\<And>k j. k < length ds \<Longrightarrow> j < 64 \<Longrightarrow>
           bit (ds' ! k) j =
             (if i * b \<le> 64 * k + j \<and> 64 * k + j < i * b + b
              then bit val (64 * k + j - i * b) else bit (ds ! k) j)"
    using store_field_bits[OF assms, of val] by blast
  have f: "fld ds' b i' = (if i' = i then take_bit b val else fld ds b i')" if i': "i' < 4096" for i'
  proof (rule bit_eqI)
    fix j
    show "bit (fld ds' b i') j = bit (if i' = i then take_bit b val else fld ds b i') j"
    proof (cases "j < b")
      case False
      then show ?thesis by (simp add: bit_fld bit_take_bit_iff)
    next
      case True
      have "i' * b + j < 4096 * b" using i' True by (rule cell_pos_bound)
      then have k: "(i' * b + j) div 64 < length ds"
        using assms(2) by (simp add: less_mult_imp_div_less)
      have p: "64 * ((i' * b + j) div 64) + (i' * b + j) mod 64 = i' * b + j" by simp
      have "bit (ds' ! ((i' * b + j) div 64)) ((i' * b + j) mod 64) =
             (if i * b \<le> i' * b + j \<and> i' * b + j < i * b + b
              then bit val (i' * b + j - i * b)
              else bit (ds ! ((i' * b + j) div 64)) ((i' * b + j) mod 64))"
        using bits[OF k, of "(i' * b + j) mod 64"] unfolding p by simp
      then show ?thesis
        using True cells_disjoint[of i' i j b]
        by (auto simp add: bit_fld bit_take_bit_iff)
    qed
  qed
  show thesis using that[OF st len ok f] .
qed

section \<open>Reads under the invariant\<close>

lemma inv_load:
  assumes "array_inv s" "i < 4096"
  shows "load_field (data s) (bits s) (int i) = Inr (fld (data s) (bits s) i)"
  using assms by (intro load_field_fld) (simp_all add: array_inv_def)

lemma getitem_gid:
  assumes "array_inv s" "i < 4096"
  shows "getitem s (int i) = decode_block (block_map s) (gid s i)"
proof (cases "palette s")
  case None
  then show ?thesis using inv_load[OF assms] by (simp add: getitem_def gid_def)
next
  case (Some p)
  have "fld (data s) (bits s) i < int (length p)" using assms Some by (simp add: array_inv_def)
  moreover have "0 \<le> fld (data s) (bits s) i" by (rule fld_nonneg)
  ultimately have "py_get p (fld (data s) (bits s) i) = Inr (p ! nat (fld (data s) (bits s) i))"
    by (simp add: py_get_def)
  then show ?thesis using inv_load[OF assms] Some by (simp add: getitem_def gid_def)
qed

lemma getitem_ok:
  assumes "array_inv s" "wf_block_map (block_map s)" "i < 4096"
  shows "\<exists>d. getitem s (int i) = Inr d \<and> encode_block (block_map s) d = Inr (gid s i)"
proof -
  have "valid_id (block_map s) (gid s i)" using assms by (simp add: array_inv_def)
  then obtain d where d: "encode_block (block_map s) d = Inr (gid s i)"
    by (auto simp add: valid_id_def)
  then have "decode_block (block_map s) (gid s i) = Inr d"
    using assms(2) by (simp add: wf_block_map_def)
  then show ?thesis using d getitem_gid[OF assms(1,3)] by simp
qed

lemma getitem_cell:
  assumes "array_inv s" "wf_block_map (block_map s)" "i < 4096"
  shows "getitem s (int i) = Inr (cell s i)"
    and "encode_block (block_map s) (cell s i) = Inr (gid s i)"
  using getitem_ok[OF assms] by (auto simp add: cell_def)

lemma collect_map:
  "(\<And>x. x \<in> set xs \<Longrightarrow> f x = Inr (h x)) \<Longrightarrow> collect f xs = Inr (map h xs)"
  by (induction xs) simp_all

lemma getslice_ok:
  assumes "array_inv s" "wf_block_map (block_map s)"
  shows "getslice s = Inr (map (cell s) [0..<4096])"
proof -
  have "collect (getitem s) (map int [0..<4096]) = Inr (map (cell s \<circ> nat) (map int [0..<4096]))"
    by (rule collect_map) (auto simp add: getitem_cell[OF assms])
  then show ?thesis by (simp add: getslice_def comp_def)
qed

lemma getitem_end:
  assumes "array_inv s"
  shows "getitem s 4096 = Inl IndexError"
proof -
  have "int (bits s) * 4096 div 64 = int (length (data s))"
    using assms by (simp add: array_inv_def)
  then have "py_get (data s) (int (bits s) * 4096 div 64) = Inl IndexError"
    by (simp add: py_get_def)
  then show ?thesis by (simp add: getitem_def load_field_def Let_def)
qed

lemma iter_from_ok:
  assumes "array_inv s" "wf_block_map (block_map s)"
  shows "i \<le> 4096 \<Longrightarrow> iter_from s (int i) acc = Some (Inr (rev acc @ map (cell s) [i..<4096]))"
proof (induction "4096 - i" arbitrary: i acc)
  case 0
  then have "i = 4096" by simp
  then show ?case using getitem_end[OF assms(1)] by (subst iter_from.simps) simp
next
  case (Suc m)
  then have i: "i < 4096" by simp
  have "iter_from s (int (Suc i)) (cell s i # acc)
          = Some (Inr (rev (cell s i # acc) @ map (cell s) [Suc i..<4096]))"
    using Suc by (intro Suc.hyps(1)) simp_all
  moreover have "[i..<4096] = i # [Suc i..<4096]" using i by (simp add: upt_conv_Cons)
  ultimately show ?case
    using getitem_cell(1)[OF assms i] by (subst iter_from.simps) (simp add: add.commute)
qed

section \<open>Writes that need no new palette entry\<close>

lemma index_of_None: "index_of p g = None \<longleftrightarrow> g \<notin> set p"
  by (induction p) auto

lemma index_of_Some: "index_of p g = Some j \<Longrightarrow> j < length p \<and> p ! j = g"
  by (induction p arbitrary: j) (auto split: if_splits)

lemma store_step:
  assumes "length ds = 64 * b" "words_ok ds" "0 < b" "b \<le> 64" "i < 4096"
    and "0 \<le> v" "v < 2 ^ b"
  shows "\<exists>ds'. store_field ds b (int i) v = (Inr (), ds') \<and> length ds' = 64 * b \<and>
           words_ok ds' \<and> (\<forall>i'<4096. fld ds' b i' = (if i' = i then v else fld ds b i'))"
proof -
  have "take_bit b v = v" using assms(6,7) by (simp add: take_bit_int_eq_self)
  then show ?thesis
    using store_field_fld[OF assms(2,1,3,4,5), of v] assms(1) by metis
qed

lemma setitem_direct:
  assumes "array_inv s" "wf_block_map (block_map s)" "i < 4096"
    and "encode_block (block_map s) d = Inr g" "palette s = None"
  shows "\<exists>s'. setitem (Suc k) so s (int i) d = Some (Inr (), s') \<and> array_inv s' \<and>
           bits s' = bits s \<and> palette s' = None \<and> block_map s' = block_map s \<and>
           (\<forall>i'<4096. gid s' i' = (if i' = i then g else gid s i'))"
proof -
  have g: "0 \<le> g" "g < 2 ^ bits s" "valid_id (block_map s) g"
    using assms by (auto simp add: wf_block_map_def array_inv_def valid_id_def)
  obtain ds' where st: "store_field (data s) (bits s) (int i) g = (Inr (), ds')"
    and len: "length ds' = 64 * bits s" and ok: "words_ok ds'"
    and f: "\<forall>i'<4096. fld ds' (bits s) i' = (if i' = i then g else fld (data s) (bits s) i')"
    using store_step[of "data s" "bits s" i g] assms(1,3) g by (auto simp add: array_inv_def)
  let ?s' = "s\<lparr>data := ds'\<rparr>"
  have run: "setitem (Suc k) so s (int i) d = Some (Inr (), ?s')"
    using assms(4,5) st by (simp add: setitem.simps)
  have gd: "\<forall>i'<4096. gid ?s' i' = (if i' = i then g else gid s i')"
    using f assms(5) by (simp add: gid_def)
  have "array_inv ?s'"
    using assms(1,5) len ok gd g(3) by (simp add: array_inv_def)
  then show ?thesis using run gd assms(5) by simp
qed

lemma setitem_known:
  assumes "array_inv s" "wf_block_map (block_map s)" "i < 4096"
    and "encode_block (block_map s) d = Inr g" "palette s = Some p" "g \<in> set p"
  shows "\<exists>s'. setitem (Suc k) so s (int i) d = Some (Inr (), s') \<and> array_inv s' \<and>
           bits s' = bits s \<and> palette s' = Some p \<and> block_map s' = block_map s \<and>
           (\<forall>i'<4096. gid s' i' = (if i' = i then g else gid s i'))"
proof -
  obtain j where j: "index_of p g = Some j"
    using assms(6) index_of_None[of p g] by (cases "index_of p g") auto
  then have jp: "j < length p" "p ! j = g" using index_of_Some by fastforce+
  have "length p \<le> 2 ^ bits s" using assms(1,5) by (simp add: array_inv_def)
  then have "int j < int (2 ^ bits s)" using jp(1) by linarith
  then have jb: "int j < 2 ^ bits s" by simp
  have g: "valid_id (block_map s) g" using assms(4) by (auto simp add: valid_id_def)
  obtain ds' where st: "store_field (data s) (bits s) (int i) (int j) = (Inr (), ds')"
    and len: "length ds' = 64 * bits s" and ok: "words_ok ds'"
    and f: "\<forall>i'<4096. fld ds' (bits s) i' = (if i' = i then int j else fld (data s) (bits s) i')"
    using store_step[of "data s" "bits s" i "int j"] assms(1,3) jb by (auto simp add: array_inv_def)
  let ?s' = "s\<lparr>data := ds'\<rparr>"
  have run: "setitem (Suc k) so s (int i) d = Some (Inr (), ?s')"
    using assms(4,5) j st by (simp add: setitem.simps)
  have gd: "\<forall>i'<4096. gid ?s' i' = (if i' = i then g else gid s i')"
    using f assms(5) jp(2) by (simp add: gid_def)
  have "\<forall>i'<4096. fld ds' (bits s) i' < int (length p)"
    using f jp(1) assms(1,5) by (simp add: array_inv_def)
  then have "array_inv ?s'"
    using assms(1,5) len ok gd g by (simp add: array_inv_def)
  then show ?thesis using run gd assms(5) by simp
qed

lemma setitem_present:
  assumes "array_inv s" "wf_block_map (block_map s)" "i < 4096"
    and "encode_block (block_map s) d = Inr g"
    and "palette s = None \<or> (\<exists>p. palette s = Some p \<and> g \<in> set p)"
  shows "\<exists>s'. setitem (Suc k) so s (int i) d = Some (Inr (), s') \<and> array_inv s' \<and>
           bits s' = bits s \<and> palette s' = palette s \<and> block_map s' = block_map s \<and>
           (\<forall>i'<4096. gid s' i' = (if i' = i then g else gid s i'))"
proof (cases "palette s")
  case None
  then show ?thesis using setitem_direct[OF assms(1-4) None, of k so] by simp
next
  case (Some p)
  then have "g \<in> set p" using assms(5) by simp
  then show ?thesis using setitem_known[OF assms(1-4) Some, of k so] Some by simp
qed

lemma setslice_fill:
  assumes wf: "wf_block_map bm"
    and G: "\<forall>i<4096. encode_block bm (vals ! i) = Inr (G i)"
    and len: "length vals = 4096"
    and pal: "pal = None \<or> (\<exists>p. pal = Some p \<and> (\<forall>i<4096. G i \<in> set p))"
  shows "m \<le> 4096 \<Longrightarrow> array_inv s \<Longrightarrow> block_map s = bm \<Longrightarrow> palette s = pal \<Longrightarrow>
         \<forall>i<m. gid s i = G i \<Longrightarrow>
         \<exists>s'. setslice (\<lambda>s' n v. setitem (Suc k) so s' n v) vals (map int [m..<4096]) s
                 = Some (Inr (), s') \<and>
               array_inv s' \<and> bits s' = bits s \<and> palette s' = pal \<and> block_map s' = bm \<and>
               (\<forall>i<4096. gid s' i = G i)"
proof (induction "4096 - m" arbitrary: m s)
  case 0
  then have "m = 4096" by simp
  then show ?case using 0 by simp
next
  case (Suc x)
  then have m: "m < 4096" by simp
  have enc: "encode_block (block_map s) (vals ! m) = Inr (G m)" using G m Suc.prems by simp
  have "palette s = None \<or> (\<exists>p. palette s = Some p \<and> G m \<in> set p)"
    using pal m Suc.prems by auto
  then obtain s1 where s1: "setitem (Suc k) so s (int m) (vals ! m) = Some (Inr (), s1)"
    "array_inv s1" "bits s1 = bits s" "palette s1 = palette s" "block_map s1 = block_map s"
    "\<forall>i'<4096. gid s1 i' = (if i' = m then G m else gid s i')"
    using setitem_present[OF Suc.prems(2) _ m enc, of k so] wf Suc.prems(3) by auto
  have pre: "\<forall>i<Suc m. gid s1 i = G i"
    using s1(6) Suc.prems(5) m by (auto simp add: less_Suc_eq)
  obtain s' where s': "setslice (\<lambda>s' n v. setitem (Suc k) so s' n v) vals
                          (map int [Suc m..<4096]) s1 = Some (Inr (), s')"
    "array_inv s'" "bits s' = bits s1" "palette s' = pal" "block_map s' = bm"
    "\<forall>i<4096. gid s' i = G i"
  proof -
    have hx: "x = 4096 - Suc m" using Suc.hyps(2) by arith
    have hm: "Suc m \<le> 4096" using m by simp
    have hb: "block_map s1 = bm" using s1(5) Suc.prems(3) by simp
    have hp: "palette s1 = pal" using s1(4) Suc.prems(4) by simp
    show ?thesis using Suc.hyps(1)[OF hx hm s1(2) hb hp pre] that by blast
  qed
  have l: "[m..<4096] = m # [Suc m..<4096]" using m by (simp add: upt_conv_Cons)
  have pg: "py_get vals (int m) = Inr (vals ! m)" using m len by (simp add: py_get_def)
  have "setslice (\<lambda>s' n v. setitem (Suc k) so s' n v) vals (map int [m..<4096]) s
          = Some (Inr (), s')"
    unfolding l using pg s1(1) s'(1) by simp
  then show ?case using s'(2-6) s1(3) by simp
qed

section \<open>Repacking\<close>

lemma ceil_log2_le: "0 < n \<Longrightarrow> ceil_log2 n \<le> k \<longleftrightarrow> n \<le> 2 ^ k"
proof (induction n arbitrary: k rule: ceil_log2.induct)
  case (1 n)
  show ?case
  proof (cases "n \<le> 1")
    case True
    have "(1::nat) \<le> 2 ^ k" by simp
    then have "n \<le> 2 ^ k" using True by linarith
    then show ?thesis using True by (simp add: ceil_log2.simps)
  next
    case False
    show ?thesis
    proof (cases k)
      case 0
      then show ?thesis using False by (simp add: ceil_log2.simps)
    next
      case (Suc k')
      have "ceil_log2 ((n + 1) div 2) \<le> k' \<longleftrightarrow> (n + 1) div 2 \<le> 2 ^ k'"
        using False by (intro "1.IH") simp_all
      moreover have "(n + 1) div 2 \<le> 2 ^ k' \<longleftrightarrow> n \<le> 2 * 2 ^ k'" by linarith
      ultimately show ?thesis using False Suc by (simp add: ceil_log2.simps[of n])
    qed
  qed
qed

text \<open>
  \<open>ceil_log2\<close> is the ceiling of the real logarithm to base 2. The source computes it
  in floating point, \<open>math.ceil(math.log(n, 2))\<close>; the model is the exact function.
\<close>

lemma ceil_log2_real:
  assumes "0 < n"
  shows "int (ceil_log2 n) = \<lceil>log 2 (real n)\<rceil>"
proof -
  have iff: "\<lceil>log 2 (real n)\<rceil> \<le> int k \<longleftrightarrow> n \<le> 2 ^ k" for k
  proof -
    have "\<lceil>log 2 (real n)\<rceil> \<le> int k \<longleftrightarrow> log 2 (real n) \<le> real k"
      by (simp add: ceiling_le_iff)
    also have "\<dots> \<longleftrightarrow> real n \<le> 2 powr real k"
      using assms by (simp add: log_le_iff)
    also have "\<dots> \<longleftrightarrow> real n \<le> real (2 ^ k)"
      by (simp add: powr_realpow)
    also have "\<dots> \<longleftrightarrow> n \<le> 2 ^ k"
      by (simp only: of_nat_le_iff)
    finally show ?thesis .
  qed
  have "0 \<le> log 2 (real n)" using assms by simp
  then have nn: "0 \<le> \<lceil>log 2 (real n)\<rceil>" by linarith
  have "n \<le> 2 ^ ceil_log2 n" using ceil_log2_le[OF assms, of "ceil_log2 n"] by simp
  then have a: "\<lceil>log 2 (real n)\<rceil> \<le> int (ceil_log2 n)" using iff by simp
  have "\<lceil>log 2 (real n)\<rceil> \<le> int (nat \<lceil>log 2 (real n)\<rceil>)" using nn by simp
  then have "n \<le> 2 ^ nat \<lceil>log 2 (real n)\<rceil>" using iff by blast
  then have "ceil_log2 n \<le> nat \<lceil>log 2 (real n)\<rceil>" using ceil_log2_le[OF assms] by simp
  then have b: "int (ceil_log2 n) \<le> \<lceil>log 2 (real n)\<rceil>" using nn by linarith
  show ?thesis using a b by simp
qed

lemma ceil_log2_8: "0 < n \<Longrightarrow> ceil_log2 n \<le> 8 \<longleftrightarrow> n \<le> 256"
  using ceil_log2_le[of n 8] by simp

lemma new_bits_width:
  assumes "0 < n"
  shows "new_bits s pal n = Inr (width (block_map s) (nat n), if nat n \<le> 256 then Some pal else None)"
proof -
  have "0 < nat n" using assms by simp
  from ceil_log2_8[OF this] show ?thesis
    using assms by (auto simp add: new_bits_def width_def Let_def max_def)
qed

lemma width_small:
  assumes "0 < n" "n \<le> 256"
  shows "4 \<le> width bm n" "width bm n \<le> 8" "n \<le> 2 ^ width bm n"
proof -
  have c: "ceil_log2 n \<le> 8" using ceil_log2_8 assms by simp
  show "4 \<le> width bm n" using assms by (simp add: width_def)
  show "width bm n \<le> 8" using assms c by (simp add: width_def)
  have "ceil_log2 n \<le> width bm n" using assms by (simp add: width_def)
  then show "n \<le> 2 ^ width bm n" using ceil_log2_le[OF assms(1)] by simp
qed

lemma repack_rewrite:
  assumes "array_inv s" "wf_block_map (block_map s)"
    and tgt: "(pal' = None \<and> b = max_bits (block_map s)) \<or>
         (\<exists>p. pal' = Some p \<and> 4 \<le> b \<and> b \<le> 8 \<and> distinct p \<and> length p \<le> 2 ^ b \<and>
              (\<forall>g\<in>set p. valid_id (block_map s) g) \<and> (\<forall>i<4096. gid s i \<in> set p))"
  shows "\<exists>s'. setslice (\<lambda>s' n v. setitem (Suc k) so s' n v) (map (cell s) [0..<4096])
                 (map int [0..<4096]) (s\<lparr>data := replicate (64 * b) 0, bits := b, palette := pal'\<rparr>)
               = Some (Inr (), s') \<and>
             array_inv s' \<and> bits s' = b \<and> palette s' = pal' \<and> block_map s' = block_map s \<and>
             (\<forall>i<4096. gid s' i = gid s i)"
proof -
  let ?s1 = "s\<lparr>data := replicate (64 * b) 0, bits := b, palette := pal'\<rparr>"
  have b: "0 < b" "b \<le> 64" using tgt assms(2) by (auto simp add: wf_block_map_def)
  have z: "\<forall>i<4096. fld (data ?s1) (bits ?s1) i = 0" using b by (simp add: fld_zeros)
  have inv1: "array_inv ?s1"
  proof (cases pal')
    case None
    then show ?thesis
      using tgt b z assms(2) by (simp add: array_inv_def words_ok_zeros gid_def wf_block_map_def)
  next
    case (Some p)
    then have p: "4 \<le> b" "b \<le> 8" "distinct p" "length p \<le> 2 ^ b"
      "\<forall>g\<in>set p. valid_id (block_map s) g" "\<forall>i<4096. gid s i \<in> set p"
      using tgt by auto
    have "gid s 0 \<in> set p" using p(6) by simp
    then have ne: "0 < length p" by (cases p) auto
    then have "p ! 0 \<in> set p" by simp
    then have "valid_id (block_map s) (p ! 0)" using p(5) by blast
    then show ?thesis
      using Some p ne z b by (simp add: array_inv_def words_ok_zeros gid_def)
  qed
  have G: "\<forall>i<4096. encode_block (block_map s) (map (cell s) [0..<4096] ! i) = Inr (gid s i)"
    using getitem_cell(2)[OF assms(1,2)] by simp
  have pal: "pal' = None \<or> (\<exists>p. pal' = Some p \<and> (\<forall>i<4096. gid s i \<in> set p))"
    using tgt by auto
  have "\<exists>s'. setslice (\<lambda>s' n v. setitem (Suc k) so s' n v) (map (cell s) [0..<4096])
                 (map int [0..<4096]) ?s1 = Some (Inr (), s') \<and>
               array_inv s' \<and> bits s' = bits ?s1 \<and> palette s' = pal' \<and>
               block_map s' = block_map s \<and> (\<forall>i<4096. gid s' i = gid s i)"
    by (rule setslice_fill[OF assms(2) G _ pal _ inv1]) simp_all
  then show ?thesis by simp
qed

lemma palette_nonempty:
  assumes "array_inv s" "palette s = Some p"
  shows "0 < length p"
proof -
  have "fld (data s) (bits s) 0 < int (length p)" using assms by (simp add: array_inv_def)
  moreover have "0 \<le> fld (data s) (bits s) 0" by (rule fld_nonneg)
  ultimately show ?thesis by linarith
qed

lemma gid_in_palette:
  assumes "array_inv s" "palette s = Some p" "i < 4096"
  shows "gid s i \<in> set p"
proof -
  have "fld (data s) (bits s) i < int (length p)" using assms by (simp add: array_inv_def)
  moreover have "0 \<le> fld (data s) (bits s) i" by (rule fld_nonneg)
  ultimately have "nat (fld (data s) (bits s) i) < length p" by linarith
  then show ?thesis using assms(2) by (simp add: gid_def)
qed

lemma repack_reserve:
  assumes "array_inv s" "wf_block_map (block_map s)" "0 \<le> r"
  shows "\<exists>s'. repack (Suc (Suc k)) so s (Some r) = Some (Inr (), s') \<and> array_inv s' \<and>
           block_map s' = block_map s \<and> (\<forall>i<4096. gid s' i = gid s i) \<and>
           (case palette s of
              None \<Rightarrow> s' = s
            | Some p \<Rightarrow>
                bits s' = width (block_map s) (length p + nat r) \<and>
                (bits s = width (block_map s) (length p + nat r) \<longrightarrow> s' = s) \<and>
                (bits s \<noteq> width (block_map s) (length p + nat r) \<longrightarrow>
                   palette s' = (if length p + nat r \<le> 256 then Some p else None)))"
proof (cases "palette s")
  case None
  then have "repack (Suc (Suc k)) so s (Some r) = Some (Inr (), s)"
    by (simp add: repack.simps new_palette_def)
  then show ?thesis using None assms(1) by simp
next
  case (Some p)
  define n where "n = length p + nat r"
  define b where "b = width (block_map s) n"
  define pal' where "pal' = (if n \<le> 256 then Some p else None)"
  have ne: "0 < length p" using palette_nonempty[OF assms(1) Some] .
  have pos: "0 < int (length p) + r" using ne assms(3) by linarith
  have nn: "nat (int (length p) + r) = n" using assms(3) by (simp add: n_def nat_add_distrib)
  have np: "new_palette so s (Some r) = Some (Inr (Some (p, int (length p) + r)))"
    using Some by (simp add: new_palette_def)
  have nb: "new_bits s p (int (length p) + r) = Inr (b, pal')"
    using new_bits_width[OF pos, of s p] by (simp add: nn b_def pal'_def)
  show ?thesis
  proof (cases "bits s = b")
    case True
    then have "repack (Suc (Suc k)) so s (Some r) = Some (Inr (), s)"
      using np nb by (simp add: repack.simps)
    then show ?thesis using Some assms(1) True by (simp add: b_def n_def)
  next
    case False
    have tgt: "(pal' = None \<and> b = max_bits (block_map s)) \<or>
         (\<exists>q. pal' = Some q \<and> 4 \<le> b \<and> b \<le> 8 \<and> distinct q \<and> length q \<le> 2 ^ b \<and>
              (\<forall>g\<in>set q. valid_id (block_map s) g) \<and> (\<forall>i<4096. gid s i \<in> set q))"
    proof (cases "n \<le> 256")
      case A: True
      have n0: "0 < n" using ne by (simp add: n_def)
      have "length p \<le> n" by (simp add: n_def)
      then have "length p \<le> 2 ^ b" using width_small(3)[OF n0 A, of "block_map s"] b_def by simp
      moreover have "distinct p" "\<forall>g\<in>set p. valid_id (block_map s) g"
        using assms(1) Some by (simp_all add: array_inv_def)
      moreover have "\<forall>i<4096. gid s i \<in> set p" using gid_in_palette[OF assms(1) Some] by simp
      ultimately show ?thesis
        using A width_small(1,2)[OF n0 A, of "block_map s"] by (simp add: pal'_def b_def)
    next
      case B: False
      then show ?thesis by (simp add: pal'_def b_def width_def)
    qed
    obtain s' where s': "setslice (\<lambda>s' n v. setitem (Suc k) so s' n v) (map (cell s) [0..<4096])
                 (map int [0..<4096]) (s\<lparr>data := replicate (64 * b) 0, bits := b, palette := pal'\<rparr>)
               = Some (Inr (), s')"
      "array_inv s'" "bits s' = b" "palette s' = pal'" "block_map s' = block_map s"
      "\<forall>i<4096. gid s' i = gid s i"
      using repack_rewrite[OF assms(1,2) tgt, of k so] by blast
    have "repack (Suc (Suc k)) so s (Some r) = Some (Inr (), s')"
      using np nb False getslice_ok[OF assms(1,2)] s'(1) by (simp add: repack.simps)
    then show ?thesis using s'(2-6) Some False by (simp add: b_def n_def pal'_def)
  qed
qed

lemma walk_palette_facts:
  assumes "array_inv s" "wf_block_map (block_map s)" "set_order_ok so"
  shows "new_palette so s None
           = Some (Inr (Some (walk_palette so s, int (length (walk_palette so s)))))"
    and "set (walk_palette so s) = gid s ` {..<4096}"
    and "distinct (walk_palette so s)"
proof -
  let ?vals = "map (cell s) [0..<4096]"
  let ?h = "\<lambda>d. projr (encode_block (block_map s) d)"
  have it: "iter_from s 0 [] = Some (Inr ?vals)"
    using iter_from_ok[OF assms(1,2), of 0 "[]"] by simp
  have so: "set (so ?vals) = set ?vals" "distinct (so ?vals)"
    using assms(3) by (simp_all add: set_order_ok_def)
  have enc: "encode_block (block_map s) x = Inr (?h x)" if xin: "x \<in> set (so ?vals)" for x
  proof -
    obtain i where "i < 4096" "x = cell s i" using xin so(1) by auto
    then show ?thesis using getitem_cell(2)[OF assms(1,2)] by simp
  qed
  have "collect (encode_block (block_map s)) (so ?vals) = Inr (map ?h (so ?vals))"
    by (rule collect_map) (rule enc)
  then show "new_palette so s None
           = Some (Inr (Some (walk_palette so s, int (length (walk_palette so s)))))"
    using it by (simp add: new_palette_def walk_palette_def)
  have "?h ` set ?vals = gid s ` {..<4096}"
  proof -
    have "?h (cell s i) = gid s i" if "i < 4096" for i
      using getitem_cell(2)[OF assms(1,2) that] by simp
    then have "(\<lambda>i. ?h (cell s i)) ` {..<4096} = gid s ` {..<4096}"
      by (intro image_cong) simp_all
    moreover have "set ?vals = cell s ` {..<4096}"
      by (simp only: set_map set_upt atLeast0LessThan)
    ultimately show ?thesis by (simp only: image_image)
  qed
  then show "set (walk_palette so s) = gid s ` {..<4096}"
    using so(1) by (simp add: walk_palette_def)
  have "inj_on ?h (set (so ?vals))"
  proof (rule inj_onI)
    fix x y assume x: "x \<in> set (so ?vals)" and y: "y \<in> set (so ?vals)" and e: "?h x = ?h y"
    have "decode_block (block_map s) (?h x) = Inr x" "decode_block (block_map s) (?h y) = Inr y"
      using enc[OF x] enc[OF y] assms(2) by (simp_all add: wf_block_map_def)
    then have "(Inr x :: error + 'a) = Inr y" using e by metis
    then show "x = y" by (rule Inr_inject)
  qed
  then show "distinct (walk_palette so s)"
    using so(2) by (simp add: walk_palette_def distinct_map)
qed

lemma repack_none:
  assumes "array_inv s" "wf_block_map (block_map s)" "set_order_ok so"
  shows "\<exists>s'. repack (Suc (Suc k)) so s None = Some (Inr (), s') \<and> array_inv s' \<and>
           block_map s' = block_map s \<and> (\<forall>i<4096. gid s' i = gid s i) \<and>
           bits s' = width (block_map s) (card (gid s ` {..<4096})) \<and>
           (bits s = width (block_map s) (card (gid s ` {..<4096})) \<longrightarrow> s' = s) \<and>
           (bits s \<noteq> width (block_map s) (card (gid s ` {..<4096})) \<longrightarrow>
              palette s' = (if card (gid s ` {..<4096}) \<le> 256
                            then Some (walk_palette so s) else None))"
proof -
  define p where "p = walk_palette so s"
  define n where "n = card (gid s ` {..<4096})"
  define b where "b = width (block_map s) n"
  define pal' where "pal' = (if n \<le> 256 then Some p else None)"
  have np: "new_palette so s None = Some (Inr (Some (p, int (length p))))"
    and sp: "set p = gid s ` {..<4096}" and dp: "distinct p"
    using walk_palette_facts[OF assms] by (simp_all add: p_def)
  have len: "length p = n" using sp dp distinct_card[of p] by (simp add: n_def)
  have "gid s 0 \<in> set p" using sp by simp
  then have n0: "0 < n" using len by (cases p) auto
  have nb: "new_bits s p (int (length p)) = Inr (b, pal')"
    using new_bits_width[of "int (length p)" s p] n0 len by (simp add: b_def pal'_def)
  show ?thesis
  proof (cases "bits s = b")
    case True
    then have "repack (Suc (Suc k)) so s None = Some (Inr (), s)"
      using np nb by (simp add: repack.simps)
    then show ?thesis using assms(1) True by (simp add: b_def n_def)
  next
    case False
    have tgt: "(pal' = None \<and> b = max_bits (block_map s)) \<or>
         (\<exists>q. pal' = Some q \<and> 4 \<le> b \<and> b \<le> 8 \<and> distinct q \<and> length q \<le> 2 ^ b \<and>
              (\<forall>g\<in>set q. valid_id (block_map s) g) \<and> (\<forall>i<4096. gid s i \<in> set q))"
    proof (cases "n \<le> 256")
      case A: True
      have "length p \<le> 2 ^ b" using width_small(3)[OF n0 A, of "block_map s"] b_def len by simp
      moreover have "\<forall>g\<in>set p. valid_id (block_map s) g"
        using assms(1) sp by (auto simp add: array_inv_def)
      moreover have "\<forall>i<4096. gid s i \<in> set p" using sp by simp
      ultimately show ?thesis
        using A dp width_small(1,2)[OF n0 A, of "block_map s"] by (simp add: pal'_def b_def)
    next
      case B: False
      then show ?thesis by (simp add: pal'_def b_def width_def)
    qed
    obtain s' where s': "setslice (\<lambda>s' n v. setitem (Suc k) so s' n v) (map (cell s) [0..<4096])
                 (map int [0..<4096]) (s\<lparr>data := replicate (64 * b) 0, bits := b, palette := pal'\<rparr>)
               = Some (Inr (), s')"
      "array_inv s'" "bits s' = b" "palette s' = pal'" "block_map s' = block_map s"
      "\<forall>i<4096. gid s' i = gid s i"
      using repack_rewrite[OF assms(1,2) tgt, of k so] by blast
    have "repack (Suc (Suc k)) so s None = Some (Inr (), s')"
      using np nb False getslice_ok[OF assms(1,2)] s'(1) by (simp add: repack.simps)
    then show ?thesis using s'(2-6) False by (simp add: b_def n_def pal'_def p_def)
  qed
qed

section \<open>Writes that extend the palette\<close>

lemma palette_capacity:
  assumes "wf_block_map bm" "distinct p" "\<forall>g\<in>set p. valid_id bm g"
  shows "length p \<le> 2 ^ max_bits bm"
proof -
  have "set p \<subseteq> {0..<2 ^ max_bits bm}"
    using assms(1,3) by (auto simp add: wf_block_map_def valid_id_def)
  then have "card (set p) \<le> card {0..<(2::int) ^ max_bits bm}"
    by (intro card_mono) simp_all
  then show ?thesis using assms(2) by (simp add: distinct_card nat_power_eq)
qed

lemma setitem_new:
  assumes "array_inv s" "wf_block_map (block_map s)" "i < 4096"
    and "encode_block (block_map s) d = Inr g" "palette s = Some p" "g \<notin> set p"
  shows "\<exists>s'. setitem (Suc (Suc (Suc k))) so s (int i) d = Some (Inr (), s') \<and> array_inv s' \<and>
           block_map s' = block_map s \<and>
           (\<forall>i'<4096. gid s' i' = (if i' = i then g else gid s i')) \<and>
           bits s' = width (block_map s) (length p + 1) \<and>
           palette s' = (if length p + 1 \<le> 256 then Some (p @ [g]) else None)"
proof -
  define b where "b = width (block_map s) (length p + 1)"
  have vg: "valid_id (block_map s) g" using assms(4) by (auto simp add: valid_id_def)
  have gr: "0 \<le> g" "g < 2 ^ max_bits (block_map s)"
    using assms(2,4) by (auto simp add: wf_block_map_def)
  have pinv: "distinct p" "\<forall>x\<in>set p. valid_id (block_map s) x" "bits s \<le> 8"
    using assms(1,5) by (simp_all add: array_inv_def)
  obtain s1 where s1: "repack (Suc (Suc k)) so s (Some 1) = Some (Inr (), s1)" "array_inv s1"
    "block_map s1 = block_map s" "\<forall>i<4096. gid s1 i = gid s i" "bits s1 = b"
    "bits s = b \<longrightarrow> s1 = s"
    "bits s \<noteq> b \<longrightarrow> palette s1 = (if length p + 1 \<le> 256 then Some p else None)"
    using repack_reserve[OF assms(1,2), of 1 k so] assms(5) by (auto simp add: b_def)
  have pal1: "palette s1 = (if length p + 1 \<le> 256 then Some p else None)"
  proof (cases "bits s = b")
    case False
    then show ?thesis using s1(7) by simp
  next
    case True
    have "length p + 1 \<le> 256"
    proof (rule ccontr)
      assume "\<not> length p + 1 \<le> 256"
      then have big: "256 < length p + 1" by simp
      then have "max_bits (block_map s) = bits s" using True by (simp add: b_def width_def)
      then have "max_bits (block_map s) \<le> 8" using pinv(3) by simp
      then have "(2::nat) ^ max_bits (block_map s) \<le> 2 ^ 8" by (intro power_increasing) simp_all
      moreover have "length (p @ [g]) \<le> 2 ^ max_bits (block_map s)"
        using pinv(1,2) assms(6) vg by (intro palette_capacity[OF assms(2)]) auto
      ultimately show False using big by simp
    qed
    then show ?thesis using True s1(6) assms(5) by simp
  qed
  have d1: "length (data s1) = 64 * b" "words_ok (data s1)" "0 < b" "b \<le> 64"
    using s1(2,5) by (simp_all add: array_inv_def)
  show ?thesis
  proof (cases "length p + 1 \<le> 256")
    case True
    then have p1: "palette s1 = Some p" using pal1 by simp
    have w: "4 \<le> b" "b \<le> 8" "length p + 1 \<le> 2 ^ b"
      using width_small[of "length p + 1" "block_map s"] True by (simp_all add: b_def)
    have "length p < 2 ^ b" using w(3) by simp
    then have "int (length p) < int (2 ^ b)" by (simp only: of_nat_less_iff)
    then have vb: "int (length p) < 2 ^ b" by simp
    obtain ds' where st: "store_field (data s1) b (int i) (int (length p)) = (Inr (), ds')"
      and len: "length ds' = 64 * b" and ok: "words_ok ds'"
      and f: "\<forall>i'<4096. fld ds' b i' = (if i' = i then int (length p) else fld (data s1) b i')"
      using store_step[OF d1 assms(3) _ vb] by auto
    let ?s' = "s1\<lparr>palette := Some (p @ [g]), data := ds'\<rparr>"
    have run: "setitem (Suc (Suc (Suc k))) so s (int i) d = Some (Inr (), ?s')"
      using assms(4,5,6) s1(1,5) p1 st index_of_None[of p g]
      by (simp add: setitem.simps)
    have old: "fld (data s1) b i' < int (length p)" if "i' < 4096" for i'
      using s1(2,5) p1 that by (simp add: array_inv_def)
    have old0: "0 \<le> fld (data s1) b i'" for i' by (rule fld_nonneg)
    have gd: "gid ?s' i' = (if i' = i then g else gid s i')" if i': "i' < 4096" for i'
    proof (cases "i' = i")
      case True
      then show ?thesis using f i' by (simp add: gid_def s1(5))
    next
      case False
      have "nat (fld (data s1) b i') < length p" using old[OF i'] old0[of i'] by linarith
      then have "(p @ [g]) ! nat (fld (data s1) b i') = gid s1 i'"
        using p1 by (simp add: gid_def nth_append s1(5))
      then show ?thesis using False f i' s1(4) by (simp add: gid_def s1(5))
    qed
    have fl: "\<forall>i'<4096. fld ds' b i' < int (length (p @ [g]))"
    proof (intro allI impI)
      fix i' assume i': "i' < (4096::nat)"
      show "fld ds' b i' < int (length (p @ [g]))"
        using f i' old[OF i'] by (cases "i' = i") simp_all
    qed
    have vd: "\<forall>i'<4096. valid_id (block_map s) (gid ?s' i')"
    proof (intro allI impI)
      fix i' assume i': "i' < (4096::nat)"
      have "valid_id (block_map s) (gid s i')" using assms(1) i' by (simp add: array_inv_def)
      then show "valid_id (block_map s) (gid ?s' i')" using gd[OF i'] vg by simp
    qed
    have "array_inv ?s'"
      unfolding array_inv_def
      using len ok d1(3,4) w pinv(1,2) assms(6) vg fl vd s1(3,5) by simp
    then show ?thesis using run gd True s1(3,5) by (simp add: b_def)
  next
    case False
    then have p1: "palette s1 = None" using pal1 by simp
    have bm: "b = max_bits (block_map s)" using False by (simp add: b_def width_def)
    obtain ds' where st: "store_field (data s1) b (int i) g = (Inr (), ds')"
      and len: "length ds' = 64 * b" and ok: "words_ok ds'"
      and f: "\<forall>i'<4096. fld ds' b i' = (if i' = i then g else fld (data s1) b i')"
      using store_step[OF d1 assms(3) gr(1)] gr(2) bm by auto
    let ?s' = "s1\<lparr>data := ds'\<rparr>"
    have run: "setitem (Suc (Suc (Suc k))) so s (int i) d = Some (Inr (), ?s')"
      using assms(4,5,6) s1(1,5) p1 st index_of_None[of p g]
      by (simp add: setitem.simps)
    have gd: "\<forall>i'<4096. gid ?s' i' = (if i' = i then g else gid s i')"
      using f p1 s1(4,5) by (simp add: gid_def)
    have vd: "\<forall>i'<4096. valid_id (block_map s) (gid ?s' i')"
    proof (intro allI impI)
      fix i' assume i': "i' < (4096::nat)"
      have "valid_id (block_map s) (gid s i')" using assms(1) i' by (simp add: array_inv_def)
      then show "valid_id (block_map s) (gid ?s' i')" using gd i' vg by simp
    qed
    have "array_inv ?s'"
      unfolding array_inv_def
      using len ok d1(3,4) p1 vd s1(3,5) bm by simp
    then show ?thesis using run gd False s1(3,5) p1 by (simp add: b_def)
  qed
qed

section \<open>The bound on nested calls\<close>

text \<open>A call that returns within a bound returns the same within every larger bound.\<close>

lemma setslice_mono:
  assumes "\<And>s n v x. w s n v = Some x \<Longrightarrow> w' s n v = Some x"
  shows "setslice w vals ns s = Some y \<Longrightarrow> setslice w' vals ns s = Some y"
proof (induction ns arbitrary: s)
  case Nil
  then show ?case by simp
next
  case (Cons n ns)
  show ?case
  proof (cases "py_get vals n")
    case (Inl e)
    then show ?thesis using Cons.prems by simp
  next
    case (Inr v)
    show ?thesis
    proof (cases "w s n v")
      case None
      then show ?thesis using Cons.prems Inr by simp
    next
      case (Some x)
      then have w': "w' s n v = Some x" by (rule assms)
      obtain r s1 where x: "x = (r, s1)" by (cases x)
      show ?thesis
      proof (cases r)
        case (Inl e)
        then show ?thesis using Cons.prems Inr Some w' x by auto
      next
        case r: (Inr u)
        then have "setslice w vals ns s1 = Some y" using Cons.prems Inr Some x by simp
        then have "setslice w' vals ns s1 = Some y" by (rule Cons.IH)
        then show ?thesis using Inr w' x r by simp
      qed
    qed
  qed
qed

lemma fuel_step:
  "(\<forall>s n d x. setitem k so s n d = Some x \<longrightarrow> setitem (Suc k) so s n d = Some x) \<and>
   (\<forall>s r y. repack k so s r = Some y \<longrightarrow> repack (Suc k) so s r = Some y)"
proof (induction k)
  case 0
  show ?case by (simp add: setitem.simps repack.simps)
next
  case (Suc k)
  have ihs: "\<And>s n d x. setitem k so s n d = Some x \<Longrightarrow> setitem (Suc k) so s n d = Some x"
    and ihr: "\<And>s r y. repack k so s r = Some y \<Longrightarrow> repack (Suc k) so s r = Some y"
    using Suc by blast+
  have A: "setitem (Suc (Suc k)) so s n d = Some x" if a: "setitem (Suc k) so s n d = Some x"
    for s n d x
  proof (cases "repack k so s (Some 1)")
    case None
    then show ?thesis using a
      by (auto simp add: setitem.simps(2)[of k] setitem.simps(2)[of "Suc k"]
          split: sum.splits option.splits)
  next
    case (Some y)
    then have "repack (Suc k) so s (Some 1) = Some y" by (rule ihr)
    then show ?thesis using a Some
      by (auto simp add: setitem.simps(2)[of k] setitem.simps(2)[of "Suc k"]
          split: sum.splits option.splits)
  qed
  have B: "repack (Suc (Suc k)) so s r = Some y" if a: "repack (Suc k) so s r = Some y"
    for s r y
  proof -
    have m: "setslice (\<lambda>s' n v. setitem k so s' n v) vals ns s0 = Some y
          \<Longrightarrow> setslice (\<lambda>s' n v. setitem (Suc k) so s' n v) vals ns s0 = Some y" for vals ns s0
      by (rule setslice_mono[where w = "\<lambda>s' n v. setitem k so s' n v"]) (rule ihs)
    show ?thesis using a
      by (auto simp add: repack.simps(2)[of k] repack.simps(2)[of "Suc k"]
          split: sum.splits option.splits prod.splits if_splits intro: m)
  qed
  show ?case using A B by blast
qed

lemma setitem_fuel: "setitem k so s n d = Some x \<Longrightarrow> setitem (k + j) so s n d = Some x"
  by (induction j) (simp_all add: fuel_step)

lemma repack_fuel: "repack k so s r = Some y \<Longrightarrow> repack (k + j) so s r = Some y"
  by (induction j) (simp_all add: fuel_step)

section \<open>Reachable states satisfy the invariant\<close>

lemma setitem_encode_fails:
  "encode_block (block_map s) d = Inl e \<Longrightarrow> setitem (Suc k) so s n d = Some (Inl e, s)"
  by (simp add: setitem.simps)

lemma setitem_total:
  assumes "array_inv s" "wf_block_map (block_map s)" "i < 4096"
    and "encode_block (block_map s) d = Inr g"
  shows "\<exists>s'. setitem (Suc (Suc (Suc k))) so s (int i) d = Some (Inr (), s') \<and> array_inv s' \<and>
           block_map s' = block_map s \<and>
           (\<forall>i'<4096. gid s' i' = (if i' = i then g else gid s i'))"
proof (cases "palette s = None \<or> (\<exists>p. palette s = Some p \<and> g \<in> set p)")
  case True
  then show ?thesis using setitem_present[OF assms True, of "Suc (Suc k)" so] by blast
next
  case False
  then obtain p where "palette s = Some p" "g \<notin> set p" by auto
  then show ?thesis using setitem_new[OF assms, of p k so] by blast
qed

lemma empty_inv:
  assumes "wf_block_map bm"
  shows "array_inv (empty_block_array bm)"
proof -
  have z: "fld (replicate 256 0) 4 i = 0" if "i < 4096" for i
    using fld_zeros[OF that, of 4] by simp
  have "valid_id bm 0" using assms by (simp add: wf_block_map_def)
  then show ?thesis
    by (simp add: array_inv_def empty_block_array_def words_ok_zeros gid_def z)
qed

lemma reachable_inv:
  assumes "wf_block_map bm" "set_order_ok so"
  shows "reachable so bm s \<Longrightarrow> array_inv s \<and> block_map s = bm"
proof (induction rule: reachable.induct)
  case reach_empty
  show ?case using empty_inv[OF assms(1)] by (simp add: empty_block_array_def)
next
  case (reach_write s n k d r s')
  then have inv: "array_inv s" and bm: "block_map s = bm" by simp_all
  have wf: "wf_block_map (block_map s)" using assms(1) bm by simp
  have n: "n = int (nat n)" "nat n < 4096" using reach_write.hyps(2,3) by simp_all
  have run: "setitem (Suc (Suc (Suc k))) so s (int (nat n)) d = Some (r, s')"
    using setitem_fuel[OF reach_write.hyps(4), of 3] n(1) by (simp add: numeral_3_eq_3)
  show ?case
  proof (cases "encode_block (block_map s) d")
    case (Inl e)
    then show ?thesis using run setitem_encode_fails[OF Inl, of "Suc (Suc k)" so] inv bm by simp
  next
    case (Inr g)
    then show ?thesis using setitem_total[OF inv wf n(2) Inr, of k so] run bm by auto
  qed
next
  case (reach_repack s reserve k r s')
  then have inv: "array_inv s" and bm: "block_map s = bm" by simp_all
  have wf: "wf_block_map (block_map s)" using assms(1) bm by simp
  have run: "repack (Suc (Suc k)) so s reserve = Some (r, s')"
    using repack_fuel[OF reach_repack.hyps(3), of 2] by (simp add: numeral_2_eq_2)
  show ?case
  proof (cases reserve)
    case None
    then show ?thesis using repack_none[OF inv wf assms(2), of k] run bm by auto
  next
    case (Some x)
    then have "0 \<le> x" using reach_repack.hyps(2) by simp
    then show ?thesis using repack_reserve[OF inv wf, of x k so] run bm Some by auto
  qed
qed

section \<open>The claims of the specification\<close>

lemma opaque_simps:
  "encode_block (opaque_map mb) d = (if 0 \<le> d \<and> d < 2 ^ mb then Inr d else Inl UnknownDescriptor)"
  "decode_block (opaque_map mb) g = (if 0 \<le> g \<and> g < 2 ^ mb then Inr g else Inl UnknownId)"
  "max_bits (opaque_map mb) = mb"
  by (simp_all add: opaque_map_def)

lemma wf_opaque:
  assumes "0 < mb" "mb \<le> 64"
  shows "wf_block_map (opaque_map mb)"
proof -
  have "encode_block (opaque_map mb) 0 = Inr 0" by (simp add: opaque_simps)
  then have v: "valid_id (opaque_map mb) 0" unfolding valid_id_def by (rule exI)
  have e: "0 \<le> g \<and> g < 2 ^ max_bits (opaque_map mb) \<and> decode_block (opaque_map mb) g = Inr d"
    if "encode_block (opaque_map mb) d = Inr g" for d g
  proof (cases "0 \<le> d \<and> d < 2 ^ mb")
    case True
    then have "g = d" using that by (simp add: opaque_simps)
    then show ?thesis using True by (simp add: opaque_simps)
  next
    case False
    then have "encode_block (opaque_map mb) d = Inl UnknownDescriptor"
      unfolding opaque_simps by (rule if_not_P)
    then show ?thesis using that by simp
  qed
  show ?thesis unfolding wf_block_map_def
    using assms v e by (simp add: opaque_simps(3))
qed

lemma so_remdups: "set_order_ok remdups"
  by (simp add: set_order_ok_def)

lemma fuel3: "3 \<le> k \<Longrightarrow> \<exists>j. k = Suc (Suc (Suc j))"
  by (rule exI[of _ "k - 3"]) arith


text \<open>
  Claim C1. In every reachable state, a write at a subscript in \<open>[0, 4096)\<close> of a descriptor
  that the block map encodes succeeds, and the read at the same subscript that follows
  returns that descriptor. This covers the palette hit, the palette growth through
  \<open>repack(reserve=1)\<close> and the switch to direct mode. The block map is assumed to keep
  its contract (\<open>wf_block_map\<close>), and three nested calls must be allowed.
\<close>

theorem write_read_roundtrip:
  assumes "wf_block_map bm" "set_order_ok so" "reachable so bm s"
    and "0 \<le> n" "n < 4096" "encode_block bm d = Inr g" "3 \<le> k"
  shows "\<exists>s'. setitem k so s n d = Some (Inr (), s') \<and> getitem s' n = Inr d"
proof -
  have inv: "array_inv s" and bm: "block_map s = bm"
    using reachable_inv[OF assms(1-3)] by simp_all
  obtain j where k: "k = Suc (Suc (Suc j))" using fuel3[OF assms(7)] by blast
  have wf: "wf_block_map (block_map s)" and enc: "encode_block (block_map s) d = Inr g"
    using assms(1,6) bm by simp_all
  have n: "n = int (nat n)" "nat n < 4096" using assms(4,5) by simp_all
  obtain s' where s': "setitem k so s (int (nat n)) d = Some (Inr (), s')" "array_inv s'"
    "block_map s' = block_map s" "gid s' (nat n) = g"
  proof -
    obtain s' where "setitem (Suc (Suc (Suc j))) so s (int (nat n)) d = Some (Inr (), s')"
      "array_inv s'" "block_map s' = block_map s"
      "\<forall>i'<4096. gid s' i' = (if i' = nat n then g else gid s i')"
      using setitem_total[OF inv wf n(2) enc, of j so] by blast
    then show ?thesis using that n(2) k by simp
  qed
  have "decode_block bm g = Inr d" using assms(1,6) by (simp add: wf_block_map_def)
  then have "getitem s' (int (nat n)) = Inr d"
    using getitem_gid[OF s'(2) n(2)] s'(3,4) bm by simp
  then show ?thesis using s'(1) n(1) by auto
qed

theorem write_read_roundtrip_witness:
  "wf_block_map (opaque_map 13) \<and> set_order_ok remdups \<and>
   reachable remdups (opaque_map 13) (empty_block_array (opaque_map 13)) \<and>
   (0::int) \<le> 7 \<and> (7::int) < 4096 \<and> encode_block (opaque_map 13) 5 = Inr 5 \<and> (3::nat) \<le> 3 \<and>
   (\<exists>s'. setitem 3 remdups (empty_block_array (opaque_map 13)) 7 5 = Some (Inr (), s') \<and>
         getitem s' 7 = Inr 5)"
proof -
  have w: "wf_block_map (opaque_map 13)" by (simp add: wf_opaque)
  have e: "encode_block (opaque_map 13) 5 = Inr 5" by (simp add: opaque_simps)
  have r: "reachable remdups (opaque_map 13) (empty_block_array (opaque_map 13))"
    by (rule reachable.reach_empty)
  have c: "\<exists>s'. setitem 3 remdups (empty_block_array (opaque_map 13)) 7 5 = Some (Inr (), s') \<and>
         getitem s' 7 = Inr 5"
    by (rule write_read_roundtrip[OF w so_remdups r _ _ e]) simp_all
  show ?thesis by (intro conjI w so_remdups r e c) simp_all
qed

lemma reachable_getitem:
  assumes "wf_block_map bm" "set_order_ok so" "reachable so bm s" "0 \<le> n" "n < 4096"
  shows "getitem s n = decode_block bm (gid s (nat n))"
proof -
  have inv: "array_inv s" and bm: "block_map s = bm"
    using reachable_inv[OF assms(1-3)] by simp_all
  have n: "n = int (nat n)" "nat n < 4096" using assms(4,5) by simp_all
  show ?thesis using getitem_gid[OF inv n(2)] n(1) bm by simp
qed






text \<open>
  Claim C9. In every reachable state the word list has \<open>ceil(4096 * bits / 64)\<close>
  elements, which is \<open>64 * bits\<close>; the empty array has 256 words for 4 bits.
\<close>

theorem storage_size_invariant:
  assumes "wf_block_map bm" "set_order_ok so" "reachable so bm s"
  shows "length (data s) = (4096 * bits s + 63) div 64 \<and> length (data s) = 64 * bits s \<and>
         length (data (empty_block_array bm)) = 256 \<and> bits (empty_block_array bm) = 4"
proof -
  have "length (data s) = 64 * bits s"
    using reachable_inv[OF assms] by (simp add: array_inv_def)
  then show ?thesis by (simp add: empty_block_array_def)
qed

theorem storage_size_invariant_witness:
  "wf_block_map (opaque_map 13) \<and> set_order_ok remdups \<and>
   reachable remdups (opaque_map 13) (empty_block_array (opaque_map 13)) \<and>
   length (data (empty_block_array (opaque_map 13))) =
     (4096 * bits (empty_block_array (opaque_map 13)) + 63) div 64"
proof -
  have w: "wf_block_map (opaque_map 13)" by (simp add: wf_opaque)
  have r: "reachable remdups (opaque_map 13) (empty_block_array (opaque_map 13))"
    by (rule reachable.reach_empty)
  show ?thesis using storage_size_invariant[OF w so_remdups r] w so_remdups r by blast
qed

text \<open>
  Claim C10. In every reachable state with a palette, the field stored at every subscript
  in \<open>[0, 4096)\<close> is a valid subscript of the palette, so the lookup \<open>self.palette[val]\<close>
  of \<open>__getitem__\<close> does not raise.
\<close>

theorem palette_lookup_in_range:
  assumes "wf_block_map bm" "set_order_ok so" "reachable so bm s"
    and "palette s = Some p" "0 \<le> n" "n < 4096"
  shows "\<exists>v. load_field (data s) (bits s) n = Inr v \<and> 0 \<le> v \<and> v < int (length p) \<and>
             py_get p v = Inr (p ! nat v)"
proof -
  have inv: "array_inv s" using reachable_inv[OF assms(1-3)] by simp
  have n: "n = int (nat n)" "nat n < 4096" using assms(5,6) by simp_all
  let ?v = "fld (data s) (bits s) (nat n)"
  have l: "load_field (data s) (bits s) (int (nat n)) = Inr ?v" using inv_load[OF inv n(2)] .
  have lt: "?v < int (length p)" using inv assms(4) n(2) by (simp add: array_inv_def)
  have ge: "0 \<le> ?v" by (rule fld_nonneg)
  have "py_get p ?v = Inr (p ! nat ?v)" using lt ge by (simp add: py_get_def)
  then show ?thesis using l lt ge n(1) by auto
qed

theorem palette_lookup_in_range_witness:
  "wf_block_map (opaque_map 13) \<and> set_order_ok remdups \<and>
   reachable remdups (opaque_map 13) (empty_block_array (opaque_map 13)) \<and>
   palette (empty_block_array (opaque_map 13)) = Some [0] \<and> (0::int) \<le> 7 \<and> (7::int) < 4096 \<and>
   (\<exists>v. load_field (data (empty_block_array (opaque_map 13)))
            (bits (empty_block_array (opaque_map 13))) 7 = Inr v \<and> 0 \<le> v \<and>
        v < int (length [0::int]) \<and> py_get [0::int] v = Inr ([0] ! nat v))"
proof -
  have w: "wf_block_map (opaque_map 13)" by (simp add: wf_opaque)
  have r: "reachable remdups (opaque_map 13) (empty_block_array (opaque_map 13))"
    by (rule reachable.reach_empty)
  have p: "palette (empty_block_array (opaque_map 13)) = Some [0]"
    by (simp add: empty_block_array_def)
  have c: "\<exists>v. load_field (data (empty_block_array (opaque_map 13)))
            (bits (empty_block_array (opaque_map 13))) 7 = Inr v \<and> 0 \<le> v \<and>
        v < int (length [0::int]) \<and> py_get [0::int] v = Inr ([0] ! nat v)"
    by (rule palette_lookup_in_range[OF w so_remdups r p]) simp_all
  show ?thesis by (intro conjI w so_remdups r p c) simp_all
qed

subsection \<open>Emptiness\<close>

lemma fld_all_zero:
  assumes "\<forall>w\<in>set ds. w = 0" "length ds = 64 * b" "i < 4096"
  shows "fld ds b i = 0"
proof (rule bit_eqI)
  fix j
  show "bit (fld ds b i) j = bit (0::int) j"
  proof (cases "j < b")
    case True
    have "i * b + j < 4096 * b" using assms(3) True by (rule cell_pos_bound)
    then have "(i * b + j) div 64 < length ds" using assms(2) by (simp add: less_mult_imp_div_less)
    then have "ds ! ((i * b + j) div 64) = 0" using assms(1) by simp
    then show ?thesis by (simp add: bit_fld)
  qed (simp add: bit_fld)
qed

lemma is_empty_gid:
  assumes "array_inv s" "is_empty s" "i < 4096"
  shows "gid s i = 0"
proof (cases "palette s")
  case None
  then have "\<forall>w\<in>set (data s). w = 0" using assms(2) by (simp add: is_empty_def list_ex_iff)
  moreover have "length (data s) = 64 * bits s" using assms(1) by (simp add: array_inv_def)
  ultimately have "fld (data s) (bits s) i = 0" using assms(3) by (rule fld_all_zero)
  then show ?thesis using None by (simp add: gid_def)
next
  case (Some p)
  then have "p = [0]" using assms(2) by (simp add: is_empty_def)
  then show ?thesis using gid_in_palette[OF assms(1) Some assms(3)] by simp
qed

text \<open>
  Claim C8. \<open>is_empty\<close> holds of the empty array; in every reachable state a write of a
  descriptor whose id is not 0 at a subscript in \<open>[0, 4096)\<close> succeeds and leaves an
  array that is not empty; and in every reachable state where \<open>is_empty\<close> holds, every
  cell in \<open>[0, 4096)\<close> holds id 0 (its read is the decoding of 0).
\<close>

theorem is_empty_exact:
  assumes "wf_block_map bm" "set_order_ok so" "reachable so bm s"
  shows "is_empty (empty_block_array bm) \<and>
         (\<forall>n d g k. 0 \<le> n \<and> n < 4096 \<and> encode_block bm d = Inr g \<and> g \<noteq> 0 \<and> 3 \<le> k \<longrightarrow>
            (\<exists>s'. setitem k so s n d = Some (Inr (), s') \<and> \<not> is_empty s')) \<and>
         (is_empty s \<longrightarrow>
            (\<forall>n. 0 \<le> n \<and> n < 4096 \<longrightarrow> gid s (nat n) = 0 \<and> getitem s n = decode_block bm 0))"
proof (intro conjI allI impI)
  show "is_empty (empty_block_array bm)" by (simp add: is_empty_def empty_block_array_def)
next
  fix n :: int and d g and k :: nat
  assume a: "0 \<le> n \<and> n < 4096 \<and> encode_block bm d = Inr g \<and> g \<noteq> 0 \<and> 3 \<le> k"
  have inv: "array_inv s" and bm: "block_map s = bm"
    using reachable_inv[OF assms(1-3)] by simp_all
  have wf: "wf_block_map (block_map s)" and enc: "encode_block (block_map s) d = Inr g"
    using assms(1) a bm by simp_all
  obtain j where k: "k = Suc (Suc (Suc j))" using fuel3[of k] a by blast
  have a1: "0 \<le> n" "n < 4096" using a by blast+
  have n: "n = int (nat n)" "nat n < 4096" using a1 by simp_all
  obtain s' where s': "setitem (Suc (Suc (Suc j))) so s (int (nat n)) d = Some (Inr (), s')"
    "array_inv s'" "\<forall>i'<4096. gid s' i' = (if i' = nat n then g else gid s i')"
    using setitem_total[OF inv wf n(2) enc, of j so] by blast
  have "gid s' (nat n) = g" using s'(3) n(2) by simp
  then have "\<not> is_empty s'" using is_empty_gid[OF s'(2) _ n(2)] a by auto
  then show "\<exists>s'. setitem k so s n d = Some (Inr (), s') \<and> \<not> is_empty s'"
    using s'(1) k n(1) by auto
next
  fix n :: int
  assume e: "is_empty s" and n: "0 \<le> n \<and> n < 4096"
  have inv: "array_inv s" using reachable_inv[OF assms(1-3)] by simp
  have n1: "0 \<le> n" "n < 4096" using n by blast+
  have "nat n < 4096" using n1 by simp
  then show "gid s (nat n) = 0" using is_empty_gid[OF inv e] by simp
  then show "getitem s n = decode_block bm 0"
    using reachable_getitem[OF assms, of n] n by simp
qed

theorem is_empty_exact_witness:
  "wf_block_map (opaque_map 13) \<and> set_order_ok remdups \<and>
   reachable remdups (opaque_map 13) (empty_block_array (opaque_map 13)) \<and>
   ((0::int) \<le> 7 \<and> (7::int) < 4096 \<and> encode_block (opaque_map 13) 5 = Inr 5 \<and> (5::int) \<noteq> 0 \<and>
    (3::nat) \<le> 3) \<and>
   (\<exists>s'. setitem 3 remdups (empty_block_array (opaque_map 13)) 7 5 = Some (Inr (), s') \<and>
         \<not> is_empty s') \<and>
   is_empty (empty_block_array (opaque_map 13)) \<and>
   getitem (empty_block_array (opaque_map 13)) 7 = decode_block (opaque_map 13) 0"
proof -
  have w: "wf_block_map (opaque_map 13)" by (simp add: wf_opaque)
  have e: "encode_block (opaque_map 13) 5 = Inr 5" by (simp add: opaque_simps)
  have r: "reachable remdups (opaque_map 13) (empty_block_array (opaque_map 13))"
    by (rule reachable.reach_empty)
  note t = is_empty_exact[OF w so_remdups r]
  have h: "(0::int) \<le> 7 \<and> (7::int) < 4096 \<and> encode_block (opaque_map 13) 5 = Inr 5 \<and>
      (5::int) \<noteq> 0 \<and> (3::nat) \<le> 3" using e by simp
  have c1: "\<exists>s'. setitem 3 remdups (empty_block_array (opaque_map 13)) 7 5 = Some (Inr (), s') \<and>
         \<not> is_empty s'"
    using t h by blast
  have c2: "is_empty (empty_block_array (opaque_map 13))" using t by blast
  have c3: "getitem (empty_block_array (opaque_map 13)) 7 = decode_block (opaque_map 13) 0"
    using t c2 by simp
  show ?thesis using w so_remdups r h c1 c2 c3 by blast
qed

subsection \<open>Subscripts out of range\<close>

lemma first_word_out_of_range:
  assumes "length ds = 64 * b" "0 < b" "out_of_range n"
  shows "py_get ds ((int b * n) div 64) = Inl IndexError"
proof -
  have b: "0 < int b" using assms(2) by simp
  have "int (length ds) \<le> (int b * n) div 64 \<or> (int b * n) div 64 < - int (length ds)"
  proof (cases "4096 \<le> n")
    case True
    then have "int b * 4096 \<le> int b * n" using b by (intro mult_left_mono) simp_all
    then have "(int b * 4096) div 64 \<le> (int b * n) div 64" by (intro zdiv_mono1) simp_all
    then show ?thesis using assms(1) by simp
  next
    case False
    then have "n \<le> - 4097" using assms(3) by (simp add: out_of_range_def)
    then have "int b * n \<le> int b * (- 4097)" using b by (intro mult_left_mono) simp_all
    then have "(int b * n) div 64 \<le> (int b * (- 4097)) div 64" by (intro zdiv_mono1) simp_all
    moreover have "(int b * (- 4097)) div 64 < - (64 * int b)" using b by linarith
    ultimately show ?thesis using assms(1) by simp
  qed
  then show ?thesis by (auto simp add: py_get_def)
qed

lemma store_field_out_of_range:
  assumes "length ds = 64 * b" "0 < b" "out_of_range n"
  shows "store_field ds b n v = (Inl IndexError, ds)"
  using first_word_out_of_range[OF assms]
  by (simp add: store_field_def Let_def py_modify_def)

lemma load_field_out_of_range:
  assumes "length ds = 64 * b" "0 < b" "out_of_range n"
  shows "load_field ds b n = Inl IndexError"
  using first_word_out_of_range[OF assms]
  by (simp add: load_field_def Let_def)



lemma grow_palette:
  assumes "array_inv s" "wf_block_map (block_map s)"
    and "encode_block (block_map s) d = Inr g" "palette s = Some p" "g \<notin> set p"
  shows "\<exists>s1. repack (Suc (Suc k)) so s (Some 1) = Some (Inr (), s1) \<and> array_inv s1 \<and>
           block_map s1 = block_map s \<and> (\<forall>i<4096. gid s1 i = gid s i) \<and>
           bits s1 = width (block_map s) (length p + 1) \<and>
           palette s1 = (if length p + 1 \<le> 256 then Some p else None)"
proof -
  define b where "b = width (block_map s) (length p + 1)"
  have vg: "valid_id (block_map s) g" using assms(3) by (auto simp add: valid_id_def)
  have pinv: "distinct p" "\<forall>x\<in>set p. valid_id (block_map s) x" "bits s \<le> 8"
    using assms(1,4) by (simp_all add: array_inv_def)
  obtain s1 where s1: "repack (Suc (Suc k)) so s (Some 1) = Some (Inr (), s1)" "array_inv s1"
    "block_map s1 = block_map s" "\<forall>i<4096. gid s1 i = gid s i" "bits s1 = b"
    "bits s = b \<longrightarrow> s1 = s"
    "bits s \<noteq> b \<longrightarrow> palette s1 = (if length p + 1 \<le> 256 then Some p else None)"
    using repack_reserve[OF assms(1,2), of 1 k so] assms(4) by (auto simp add: b_def)
  have pal1: "palette s1 = (if length p + 1 \<le> 256 then Some p else None)"
  proof (cases "bits s = b")
    case False
    then show ?thesis using s1(7) by simp
  next
    case True
    have "length p + 1 \<le> 256"
    proof (rule ccontr)
      assume "\<not> length p + 1 \<le> 256"
      then have big: "256 < length p + 1" by simp
      then have "max_bits (block_map s) = bits s" using True by (simp add: b_def width_def)
      then have "max_bits (block_map s) \<le> 8" using pinv(3) by simp
      then have "(2::nat) ^ max_bits (block_map s) \<le> 2 ^ 8" by (intro power_increasing) simp_all
      moreover have "length (p @ [g]) \<le> 2 ^ max_bits (block_map s)"
        using pinv(1,2) assms(5) vg by (intro palette_capacity[OF assms(2)]) auto
      ultimately show False using big by simp
    qed
    then show ?thesis using True s1(6) assms(4) by simp
  qed
  show ?thesis using s1(1-5) pal1 by (auto simp add: b_def)
qed

lemma setitem_oor_known:
  assumes "array_inv s" "encode_block (block_map s) d = Inr g" "out_of_range n"
    and "palette s = None \<or> (\<exists>p. palette s = Some p \<and> g \<in> set p)"
  shows "setitem (Suc k) so s n d = Some (Inl IndexError, s)"
proof -
  have l: "length (data s) = 64 * bits s" "0 < bits s" using assms(1) by (simp_all add: array_inv_def)
  have st: "store_field (data s) (bits s) n v = (Inl IndexError, data s)" for v
    using store_field_out_of_range[OF l assms(3)] .
  show ?thesis
  proof (cases "palette s")
    case None
    then show ?thesis using assms(2) st by (simp add: setitem.simps)
  next
    case (Some p)
    then have "g \<in> set p" using assms(4) by simp
    then obtain j where "index_of p g = Some j"
      using index_of_None[of p g] by (cases "index_of p g") auto
    then show ?thesis using assms(2) Some st by (simp add: setitem.simps)
  qed
qed

lemma setitem_oor_new:
  assumes "array_inv s" "wf_block_map (block_map s)"
    and "encode_block (block_map s) d = Inr g" "palette s = Some p" "g \<notin> set p"
    and "out_of_range n"
  shows "\<exists>s'. setitem (Suc (Suc (Suc k))) so s n d = Some (Inl IndexError, s') \<and>
           array_inv s' \<and> block_map s' = block_map s \<and> (\<forall>i<4096. gid s' i = gid s i) \<and>
           palette s' = (if length p + 1 \<le> 256 then Some (p @ [g]) else None)"
proof -
  obtain s1 where s1: "repack (Suc (Suc k)) so s (Some 1) = Some (Inr (), s1)" "array_inv s1"
    "block_map s1 = block_map s" "\<forall>i<4096. gid s1 i = gid s i"
    "bits s1 = width (block_map s) (length p + 1)"
    "palette s1 = (if length p + 1 \<le> 256 then Some p else None)"
    using grow_palette[OF assms(1-5), of k so] by blast
  have l: "length (data s1) = 64 * bits s1" "0 < bits s1"
    using s1(2) by (simp_all add: array_inv_def)
  have st: "store_field (data s1) (bits s1) n v = (Inl IndexError, data s1)" for v
    using store_field_out_of_range[OF l assms(6)] .
  have io: "index_of p g = None" using assms(5) index_of_None[of p g] by simp
  show ?thesis
  proof (cases "length p + 1 \<le> 256")
    case False
    then have "palette s1 = None" using s1(6) by simp
    then have "setitem (Suc (Suc (Suc k))) so s n d = Some (Inl IndexError, s1)"
      using assms(3,4) io s1(1) st by (simp add: setitem.simps)
    then show ?thesis using s1(2-4) \<open>palette s1 = None\<close> False by simp
  next
    case True
    then have p1: "palette s1 = Some p" using s1(6) by simp
    let ?s' = "s1\<lparr>palette := Some (p @ [g])\<rparr>"
    have run: "setitem (Suc (Suc (Suc k))) so s n d = Some (Inl IndexError, ?s')"
      using assms(3,4) io s1(1) p1 st by (simp add: setitem.simps)
    have w: "length p + 1 \<le> 2 ^ bits s1"
      using width_small(3)[of "length p + 1" "block_map s"] True s1(5) by simp
    have vg: "valid_id (block_map s) g" using assms(3) by (auto simp add: valid_id_def)
    have old: "fld (data s1) (bits s1) i < int (length p)" if "i < 4096" for i
      using s1(2) p1 that by (simp add: array_inv_def)
    have gd: "gid ?s' i = gid s1 i" if i: "i < 4096" for i
    proof -
      have "0 \<le> fld (data s1) (bits s1) i" by (rule fld_nonneg)
      then have "nat (fld (data s1) (bits s1) i) < length p" using old[OF i] by linarith
      then show ?thesis using p1 by (simp add: gid_def nth_append)
    qed
    have vd: "\<forall>i<4096. valid_id (block_map s1) (gid ?s' i)"
      using gd s1(2) by (simp add: array_inv_def)
    have fl: "\<forall>i<4096. fld (data s1) (bits s1) i < int (length (p @ [g]))"
    proof (intro allI impI)
      fix i assume "i < (4096::nat)"
      then show "fld (data s1) (bits s1) i < int (length (p @ [g]))" using old[of i] by simp
    qed
    have "array_inv ?s'"
      unfolding array_inv_def
      using s1(2,3) p1 w vg fl vd assms(5) by (simp add: array_inv_def)
    then show ?thesis using run gd s1(3,4) True by simp
  qed
qed

lemma reads_from_gid:
  assumes "array_inv s" "array_inv s'" "block_map s' = block_map s"
    and "\<forall>i<4096. gid s' i = gid s i" "0 \<le> n" "n < 4096"
  shows "getitem s' n = getitem s n"
proof -
  have n: "n = int (nat n)" "nat n < 4096" using assms(5,6) by simp_all
  have "getitem s' (int (nat n)) = getitem s (int (nat n))"
    using getitem_gid[OF assms(1) n(2)] getitem_gid[OF assms(2) n(2)] assms(3,4) n(2) by simp
  then show ?thesis using n(1) by simp
qed

text \<open>
  Claim C4, as the code has it. A write whose \<open>encode_block\<close> raises leaves the array as
  it was. A write at a subscript outside \<open>[-4096, 4096)\<close> raises \<open>IndexError\<close>; the array
  is then as it was when it has no palette or the id is already in the palette. When
  the id is new, the palette has been extended (and the array repacked when the wider
  palette needs it) before the subscript is used: the result of every read in
  \<open>[0, 4096)\<close> is as before, but the palette is not.
\<close>

theorem failed_write_effect:
  assumes "wf_block_map bm" "set_order_ok so" "reachable so bm s" "3 \<le> k"
  shows "(\<forall>e. encode_block bm d = Inl e \<longrightarrow> setitem k so s n d = Some (Inl e, s)) \<and>
         (\<forall>g. encode_block bm d = Inr g \<and> out_of_range n \<and>
              (palette s = None \<or> (\<exists>p. palette s = Some p \<and> g \<in> set p)) \<longrightarrow>
              setitem k so s n d = Some (Inl IndexError, s)) \<and>
         (\<forall>g p. encode_block bm d = Inr g \<and> out_of_range n \<and> palette s = Some p \<and> g \<notin> set p \<longrightarrow>
              (\<exists>s'. setitem k so s n d = Some (Inl IndexError, s') \<and>
                    palette s' = (if length p + 1 \<le> 256 then Some (p @ [g]) else None) \<and>
                    (\<forall>i. 0 \<le> i \<and> i < 4096 \<longrightarrow> getitem s' i = getitem s i)))"
proof (intro conjI allI impI)
  have inv: "array_inv s" and bm: "block_map s = bm"
    using reachable_inv[OF assms(1-3)] by simp_all
  have wf: "wf_block_map (block_map s)" using assms(1) bm by simp
  obtain j where k: "k = Suc (Suc (Suc j))" using fuel3[OF assms(4)] by blast
  {
    fix e assume "encode_block bm d = Inl e"
    then show "setitem k so s n d = Some (Inl e, s)"
      using setitem_encode_fails[of s d e "Suc (Suc j)" so n] bm k by simp
  }
  {
    fix g
    assume a: "encode_block bm d = Inr g \<and> out_of_range n \<and>
              (palette s = None \<or> (\<exists>p. palette s = Some p \<and> g \<in> set p))"
    then have "encode_block (block_map s) d = Inr g" "out_of_range n"
      "palette s = None \<or> (\<exists>p. palette s = Some p \<and> g \<in> set p)" using bm by simp_all
    then show "setitem k so s n d = Some (Inl IndexError, s)"
      using setitem_oor_known[OF inv, of d g n "Suc (Suc j)" so] k by simp
  }
  {
    fix g p
    assume a: "encode_block bm d = Inr g \<and> out_of_range n \<and> palette s = Some p \<and> g \<notin> set p"
    then have h: "encode_block (block_map s) d = Inr g" "palette s = Some p" "g \<notin> set p"
      "out_of_range n" using bm by simp_all
    obtain s' where s': "setitem (Suc (Suc (Suc j))) so s n d = Some (Inl IndexError, s')"
      "array_inv s'" "block_map s' = block_map s" "\<forall>i<4096. gid s' i = gid s i"
      "palette s' = (if length p + 1 \<le> 256 then Some (p @ [g]) else None)"
      using setitem_oor_new[OF inv wf h, of j so] by blast
    have "\<forall>i. 0 \<le> i \<and> i < 4096 \<longrightarrow> getitem s' i = getitem s i"
      using reads_from_gid[OF inv s'(2,3,4)] by blast
    then show "\<exists>s'. setitem k so s n d = Some (Inl IndexError, s') \<and>
                    palette s' = (if length p + 1 \<le> 256 then Some (p @ [g]) else None) \<and>
                    (\<forall>i. 0 \<le> i \<and> i < 4096 \<longrightarrow> getitem s' i = getitem s i)"
      using s'(1,5) k by blast
  }
qed

lemma empty_sel:
  "block_map (empty_block_array bm) = bm" "data (empty_block_array bm) = replicate 256 0"
  "bits (empty_block_array bm) = 4" "palette (empty_block_array bm) = Some [0]"
  by (simp_all add: empty_block_array_def)

theorem failed_write_counterexample:
  "setitem 3 remdups (empty_block_array (opaque_map 13)) 4096 5 =
     Some (Inl IndexError, (empty_block_array (opaque_map 13))\<lparr>palette := Some [0, 5]\<rparr>) \<and>
   (empty_block_array (opaque_map 13))\<lparr>palette := Some [0, 5]\<rparr> \<noteq> empty_block_array (opaque_map 13)"
proof
  have c: "ceil_log2 2 = 1" by (simp add: ceil_log2.simps)
  have n: "new_bits (empty_block_array (opaque_map 13)) [0] 2 = Inr (4, Some [0])"
    by (simp add: new_bits_def c)
  have r: "repack (Suc (Suc 0)) remdups (empty_block_array (opaque_map 13)) (Some 1)
             = Some (Inr (), empty_block_array (opaque_map 13))"
    using n by (simp add: repack.simps new_palette_def empty_sel)
  have g: "py_get (replicate 256 (0::int)) 256 = Inl IndexError" by (simp add: py_get_def)
  have st: "store_field (replicate 256 0) 4 4096 1 = (Inl IndexError, replicate 256 0)"
    using g by (simp add: store_field_def Let_def py_modify_def)
  have "setitem 3 remdups (empty_block_array (opaque_map 13)) 4096 5 =
     Some (Inl IndexError, (empty_block_array (opaque_map 13))
             \<lparr>palette := Some [0, 5], data := replicate 256 0\<rparr>)"
    by (simp add: numeral_3_eq_3 setitem.simps opaque_simps empty_sel r st)
  then show "setitem 3 remdups (empty_block_array (opaque_map 13)) 4096 5 =
     Some (Inl IndexError, (empty_block_array (opaque_map 13))\<lparr>palette := Some [0, 5]\<rparr>)"
    by (simp add: empty_block_array_def)
  show "(empty_block_array (opaque_map 13))\<lparr>palette := Some [0, 5]\<rparr> \<noteq> empty_block_array (opaque_map 13)"
    by (simp add: empty_block_array_def)
qed

theorem failed_write_effect_witness:
  "wf_block_map (opaque_map 13) \<and> set_order_ok remdups \<and>
   reachable remdups (opaque_map 13) (empty_block_array (opaque_map 13)) \<and> (3::nat) \<le> 3 \<and>
   encode_block (opaque_map 13) (- 1) = Inl UnknownDescriptor \<and>
   setitem 3 remdups (empty_block_array (opaque_map 13)) 7 (- 1)
     = Some (Inl UnknownDescriptor, empty_block_array (opaque_map 13)) \<and>
   (encode_block (opaque_map 13) 0 = Inr 0 \<and> out_of_range 4096 \<and>
    (palette (empty_block_array (opaque_map 13)) = None \<or>
     (\<exists>p. palette (empty_block_array (opaque_map 13)) = Some p \<and> 0 \<in> set p))) \<and>
   setitem 3 remdups (empty_block_array (opaque_map 13)) 4096 0
     = Some (Inl IndexError, empty_block_array (opaque_map 13)) \<and>
   (encode_block (opaque_map 13) 5 = Inr 5 \<and> out_of_range 4096 \<and>
    palette (empty_block_array (opaque_map 13)) = Some [0] \<and> 5 \<notin> set [0::int]) \<and>
   (\<exists>s'. setitem 3 remdups (empty_block_array (opaque_map 13)) 4096 5 = Some (Inl IndexError, s') \<and>
         palette s' = (if length [0::int] + 1 \<le> 256 then Some ([0] @ [5]) else None) \<and>
         (\<forall>i. 0 \<le> i \<and> i < 4096 \<longrightarrow> getitem s' i = getitem (empty_block_array (opaque_map 13)) i))"
proof -
  have w: "wf_block_map (opaque_map 13)" by (simp add: wf_opaque)
  have r: "reachable remdups (opaque_map 13) (empty_block_array (opaque_map 13))"
    by (rule reachable.reach_empty)
  have k: "(3::nat) \<le> 3" by simp
  have e1: "encode_block (opaque_map 13) (- 1) = Inl UnknownDescriptor" by (simp add: opaque_simps)
  have h2: "encode_block (opaque_map 13) 0 = Inr 0 \<and> out_of_range 4096 \<and>
    (palette (empty_block_array (opaque_map 13)) = None \<or>
     (\<exists>p. palette (empty_block_array (opaque_map 13)) = Some p \<and> 0 \<in> set p))"
    by (simp add: opaque_simps out_of_range_def empty_sel)
  have h3: "encode_block (opaque_map 13) 5 = Inr 5 \<and> out_of_range 4096 \<and>
    palette (empty_block_array (opaque_map 13)) = Some [0] \<and> 5 \<notin> set [0::int]"
    by (simp add: opaque_simps out_of_range_def empty_sel)
  have c1: "setitem 3 remdups (empty_block_array (opaque_map 13)) 7 (- 1)
     = Some (Inl UnknownDescriptor, empty_block_array (opaque_map 13))"
    using failed_write_effect[OF w so_remdups r k, of "- 1" 7] e1 by blast
  have c2: "setitem 3 remdups (empty_block_array (opaque_map 13)) 4096 0
     = Some (Inl IndexError, empty_block_array (opaque_map 13))"
    using failed_write_effect[OF w so_remdups r k, of 0 4096] h2 by blast
  have c3: "\<exists>s'. setitem 3 remdups (empty_block_array (opaque_map 13)) 4096 5 = Some (Inl IndexError, s') \<and>
         palette s' = (if length [0::int] + 1 \<le> 256 then Some ([0] @ [5]) else None) \<and>
         (\<forall>i. 0 \<le> i \<and> i < 4096 \<longrightarrow> getitem s' i = getitem (empty_block_array (opaque_map 13)) i)"
    using failed_write_effect[OF w so_remdups r k, of 5 4096] h3 by blast
  show ?thesis by (intro conjI w so_remdups r k e1 c1 h2 c2 h3 c3)
qed





subsection \<open>Sequences of writes\<close>

lemma width_values:
  "0 < n \<Longrightarrow> n \<le> 16 \<Longrightarrow> width bm n = 4"
  "16 < n \<Longrightarrow> n \<le> 32 \<Longrightarrow> width bm n = 5"
proof -
  show "width bm n = 4" if "0 < n" "n \<le> 16"
  proof -
    have "ceil_log2 n \<le> 4" using ceil_log2_le[OF that(1), of 4] that(2) by simp
    then show ?thesis using that(2) by (simp add: width_def)
  qed
  show "width bm n = 5" if "16 < n" "n \<le> 32"
  proof -
    have n0: "0 < n" using that(1) by simp
    have "ceil_log2 n \<le> 5" using ceil_log2_le[OF n0, of 5] that(2) by simp
    moreover have "\<not> ceil_log2 n \<le> 4" using ceil_log2_le[OF n0, of 4] that(1) by simp
    ultimately have "ceil_log2 n = 5" by simp
    then show ?thesis using that(2) by (simp add: width_def)
  qed
qed

lemma fresh_writes:
  assumes "wf_block_map bm"
  shows "array_inv s \<Longrightarrow> block_map s = bm \<Longrightarrow> palette s = Some p \<Longrightarrow>
         bits s = width bm (length p) \<Longrightarrow> in_range_writes ws \<Longrightarrow>
         map (encode_block bm \<circ> snd) ws = map Inr gs \<Longrightarrow> distinct (p @ gs) \<Longrightarrow>
         length p + length gs \<le> 256 \<Longrightarrow>
         \<exists>s'. write_all (Suc (Suc (Suc k))) so s ws = Some s' \<and> array_inv s' \<and>
               block_map s' = bm \<and> palette s' = Some (p @ gs) \<and>
               bits s' = width bm (length p + length gs)"
proof (induction ws arbitrary: s p gs)
  case Nil
  then show ?case by simp
next
  case (Cons w ws)
  obtain n d where w: "w = (n, d)" by (cases w)
  obtain g gs' where gs: "gs = g # gs'" using Cons.prems(6) by (cases gs) auto
  have enc: "encode_block (block_map s) d = Inr g" and rest: "map (encode_block bm \<circ> snd) ws = map Inr gs'"
    using Cons.prems(2,6) w gs by (simp_all add: comp_def)
  have n0: "0 \<le> n" "n < 4096" using Cons.prems(5) w by (simp_all add: in_range_writes_def)
  have n: "n = int (nat n)" "nat n < 4096" using n0 by simp_all
  have gp: "g \<notin> set p" using Cons.prems(7) gs by auto
  have wf: "wf_block_map (block_map s)" using assms Cons.prems(2) by simp
  have small: "length p + 1 \<le> 256" using Cons.prems(8) gs by simp
  obtain s1 where s1: "setitem (Suc (Suc (Suc k))) so s (int (nat n)) d = Some (Inr (), s1)"
    "array_inv s1" "block_map s1 = block_map s"
    "bits s1 = width (block_map s) (length p + 1)"
    "palette s1 = (if length p + 1 \<le> 256 then Some (p @ [g]) else None)"
    using setitem_new[OF Cons.prems(1) wf n(2) enc Cons.prems(3) gp, of k so] by blast
  have p1: "palette s1 = Some (p @ [g])" using s1(5) small by simp
  have b1: "bits s1 = width bm (length (p @ [g]))" using s1(4) Cons.prems(2) by simp
  have bm1: "block_map s1 = bm" using s1(3) Cons.prems(2) by simp
  have r1: "in_range_writes ws" using Cons.prems(5) by (simp add: in_range_writes_def)
  have d1: "distinct ((p @ [g]) @ gs')" using Cons.prems(7) gs by simp
  have l1: "length (p @ [g]) + length gs' \<le> 256" using Cons.prems(8) gs by simp
  obtain s' where s': "write_all (Suc (Suc (Suc k))) so s1 ws = Some s'" "array_inv s'"
    "block_map s' = bm" "palette s' = Some ((p @ [g]) @ gs')"
    "bits s' = width bm (length (p @ [g]) + length gs')"
    using Cons.IH[OF s1(2) bm1 p1 b1 r1 rest d1 l1] by blast
  have "write_all (Suc (Suc (Suc k))) so s (w # ws) = Some s'"
    using s1(1) s'(1) w n(1) by simp
  then show ?case using s'(2-5) gs by simp
qed

lemma fresh_writes_from_empty:
  assumes "wf_block_map bm" "in_range_writes ws" "map (encode_block bm \<circ> snd) ws = map Inr gs"
    and "distinct gs" "0 \<notin> set gs" "length gs \<le> 255"
  shows "\<exists>s'. write_all (Suc (Suc (Suc k))) so (empty_block_array bm) ws = Some s' \<and>
               array_inv s' \<and> block_map s' = bm \<and> palette s' = Some (0 # gs) \<and>
               bits s' = width bm (1 + length gs)"
proof -
  have b: "bits (empty_block_array bm) = width bm (length [0::int])"
    by (simp add: empty_sel width_values(1))
  have d: "distinct ([0] @ gs)" using assms(4,5) by simp
  have l: "length [0::int] + length gs \<le> 256" using assms(6) by simp
  show ?thesis
    using fresh_writes[OF assms(1) empty_inv[OF assms(1)] empty_sel(1) empty_sel(4) b assms(2,3) d l,
        of k so]
    by simp
qed

lemma write_all_reachable:
  "reachable so bm s \<Longrightarrow> in_range_writes ws \<Longrightarrow> write_all k so s ws = Some s' \<Longrightarrow>
   reachable so bm s'"
proof (induction ws arbitrary: s)
  case Nil
  then show ?case by simp
next
  case (Cons w ws)
  obtain n d where w: "w = (n, d)" by (cases w)
  obtain s1 where s1: "setitem k so s n d = Some (Inr (), s1)" "write_all k so s1 ws = Some s'"
    using Cons.prems(3) w by (auto split: option.splits sum.splits prod.splits)
  have n: "0 \<le> n" "n < 4096" using Cons.prems(2) w by (simp_all add: in_range_writes_def)
  have "reachable so bm s1" using reachable.reach_write[OF Cons.prems(1) n s1(1)] .
  moreover have "in_range_writes ws" using Cons.prems(2) by (simp add: in_range_writes_def)
  ultimately show ?case using s1(2) by (rule Cons.IH)
qed

text \<open>
  Claim C3, as the code has it. Seventeen writes of distinct ids other than 0 into the
  empty array, at subscripts in \<open>[0, 4096)\<close>: after the first \<open>j\<close> of them the palette is
  0 followed by the first \<open>j\<close> ids, so it grows from 1 entry to 18, and \<open>bits\<close> is 4 as
  long as \<open>j < 16\<close> and 5 from \<open>j = 16\<close> on. The only change of \<open>bits\<close> is at the 16th
  write, where \<open>repack(reserve=1)\<close> computes the width for 17 palette entries.
\<close>

theorem palette_growth_scenario:
  assumes "wf_block_map bm" "length ws = 17" "in_range_writes ws"
    and "map (encode_block bm \<circ> snd) ws = map Inr gs" "distinct gs" "0 \<notin> set gs"
    and "j \<le> 17" "3 \<le> k"
  shows "\<exists>s'. write_all k so (empty_block_array bm) (take j ws) = Some s' \<and>
               palette s' = Some (0 # take j gs) \<and> length (0 # take j gs) = j + 1 \<and>
               bits s' = (if j < 16 then 4 else 5)"
proof -
  obtain i where k: "k = Suc (Suc (Suc i))" using fuel3[OF assms(8)] by blast
  have "length (map (encode_block bm \<circ> snd) ws) = length (map Inr gs :: (error + int) list)"
    using assms(4) by simp
  then have lg: "length gs = 17" using assms(2) by simp
  have r: "in_range_writes (take j ws)"
    using assms(3) set_take_subset[of j ws] by (auto simp add: in_range_writes_def)
  have m: "map (encode_block bm \<circ> snd) (take j ws) = map Inr (take j gs)"
    using assms(4) by (simp only: take_map[symmetric])
  have d: "distinct (take j gs)" using assms(5) by simp
  have z: "0 \<notin> set (take j gs)" using assms(6) set_take_subset[of j gs] by auto
  have l: "length (take j gs) \<le> 255" using lg by simp
  have lj: "length (take j gs) = j" using lg assms(7) by simp
  obtain s' where s': "write_all k so (empty_block_array bm) (take j ws) = Some s'"
    "palette s' = Some (0 # take j gs)" "bits s' = width bm (1 + length (take j gs))"
    using fresh_writes_from_empty[OF assms(1) r m d z l, of i so] k by blast
  have "width bm (1 + j) = (if j < 16 then 4 else 5)"
    using width_values[of "1 + j" bm] assms(7) by auto
  then show ?thesis using s' lj by simp
qed

theorem palette_growth_scenario_witness:
  "wf_block_map (opaque_map 13) \<and> length scenario_writes = 17 \<and>
   in_range_writes scenario_writes \<and>
   map (encode_block (opaque_map 13) \<circ> snd) scenario_writes = map Inr [1, 2, 3, 4, 5, 6, 7, 8, 9, 10, 11, 12, 13, 14, 15, 16, 17] \<and>
   distinct ([1, 2, 3, 4, 5, 6, 7, 8, 9, 10, 11, 12, 13, 14, 15, 16, 17] :: int list) \<and> 0 \<notin> set ([1, 2, 3, 4, 5, 6, 7, 8, 9, 10, 11, 12, 13, 14, 15, 16, 17] :: int list) \<and>
   (16::nat) \<le> 17 \<and> (3::nat) \<le> 3 \<and>
   (\<exists>s'. write_all 3 remdups (empty_block_array (opaque_map 13)) (take 16 scenario_writes) = Some s' \<and>
         palette s' = Some (0 # take 16 [1, 2, 3, 4, 5, 6, 7, 8, 9, 10, 11, 12, 13, 14, 15, 16, 17]) \<and> length (0 # take 16 ([1, 2, 3, 4, 5, 6, 7, 8, 9, 10, 11, 12, 13, 14, 15, 16, 17] :: int list)) = 16 + 1 \<and>
         bits s' = (if (16::nat) < 16 then 4 else 5))"
proof -
  have w: "wf_block_map (opaque_map 13)" by (simp add: wf_opaque)
  have l: "length scenario_writes = 17" by (simp add: scenario_writes_def)
  have r: "in_range_writes scenario_writes" by (simp add: scenario_writes_def in_range_writes_def)
  have m: "map (encode_block (opaque_map 13) \<circ> snd) scenario_writes = map Inr [1, 2, 3, 4, 5, 6, 7, 8, 9, 10, 11, 12, 13, 14, 15, 16, 17]"
    by (simp add: scenario_writes_def opaque_simps)
  have d: "distinct ([1, 2, 3, 4, 5, 6, 7, 8, 9, 10, 11, 12, 13, 14, 15, 16, 17] :: int list)" by simp
  have z: "0 \<notin> set ([1, 2, 3, 4, 5, 6, 7, 8, 9, 10, 11, 12, 13, 14, 15, 16, 17] :: int list)" by simp
  have j: "(16::nat) \<le> 17" and k: "(3::nat) \<le> 3" by simp_all
  have c: "\<exists>s'. write_all 3 remdups (empty_block_array (opaque_map 13)) (take 16 scenario_writes) = Some s' \<and>
         palette s' = Some (0 # take 16 [1, 2, 3, 4, 5, 6, 7, 8, 9, 10, 11, 12, 13, 14, 15, 16, 17]) \<and> length (0 # take 16 ([1, 2, 3, 4, 5, 6, 7, 8, 9, 10, 11, 12, 13, 14, 15, 16, 17] :: int list)) = 16 + 1 \<and>
         bits s' = (if (16::nat) < 16 then 4 else 5)"
    by (rule palette_growth_scenario[OF w l r m d z j k])
  show ?thesis by (intro conjI w l r m d z j k c)
qed

theorem palette_growth_counterexample:
  "map_option bits (write_all 3 remdups (empty_block_array (opaque_map 13)) (take 16 scenario_writes))
     = Some 5"
proof -
  have t: "take 16 scenario_writes = [(1, 1), (2, 2), (3, 3), (4, 4), (5, 5), (6, 6), (7, 7), (8, 8), (9, 9), (10, 10), (11, 11), (12, 12), (13, 13), (14, 14), (15, 15), (16, 16)]" by (simp add: scenario_writes_def)
  have w: "wf_block_map (opaque_map 13)" by (simp add: wf_opaque)
  have r: "in_range_writes ([(1, 1), (2, 2), (3, 3), (4, 4), (5, 5), (6, 6), (7, 7), (8, 8), (9, 9), (10, 10), (11, 11), (12, 12), (13, 13), (14, 14), (15, 15), (16, 16)] :: (int \<times> int) list)" by (simp add: in_range_writes_def)
  have m: "map (encode_block (opaque_map 13) \<circ> snd) [(1, 1), (2, 2), (3, 3), (4, 4), (5, 5), (6, 6), (7, 7), (8, 8), (9, 9), (10, 10), (11, 11), (12, 12), (13, 13), (14, 14), (15, 15), (16, 16)] = map Inr [1, 2, 3, 4, 5, 6, 7, 8, 9, 10, 11, 12, 13, 14, 15, 16]"
    by (simp add: opaque_simps)
  have d: "distinct ([1, 2, 3, 4, 5, 6, 7, 8, 9, 10, 11, 12, 13, 14, 15, 16] :: int list)" by simp
  have z: "0 \<notin> set ([1, 2, 3, 4, 5, 6, 7, 8, 9, 10, 11, 12, 13, 14, 15, 16] :: int list)" by simp
  have l: "length ([1, 2, 3, 4, 5, 6, 7, 8, 9, 10, 11, 12, 13, 14, 15, 16] :: int list) \<le> 255" by simp
  obtain s' where s': "write_all (Suc (Suc (Suc 0))) remdups (empty_block_array (opaque_map 13)) [(1, 1), (2, 2), (3, 3), (4, 4), (5, 5), (6, 6), (7, 7), (8, 8), (9, 9), (10, 10), (11, 11), (12, 12), (13, 13), (14, 14), (15, 15), (16, 16)]
       = Some s'" "bits s' = width (opaque_map 13) (1 + length ([1, 2, 3, 4, 5, 6, 7, 8, 9, 10, 11, 12, 13, 14, 15, 16] :: int list))"
    using fresh_writes_from_empty[OF w r m d z l, of 0 remdups] by blast
  have n: "1 + length ([1, 2, 3, 4, 5, 6, 7, 8, 9, 10, 11, 12, 13, 14, 15, 16] :: int list) = 17" by simp
  have "width (opaque_map 13) 17 = 5" by (rule width_values(2)) simp_all
  then have "bits s' = 5" using s'(2) by (simp only: n)
  then show ?thesis using s'(1) t by (simp add: numeral_3_eq_3)
qed

lemma single_write:
  assumes "wf_block_map bm" "set_order_ok so" "0 \<le> n" "n < 4096"
    and "encode_block bm d = Inr g" "g \<noteq> 0"
  shows "\<exists>s'. setitem (Suc (Suc (Suc j))) so (empty_block_array bm) n d = Some (Inr (), s') \<and>
           palette s' = Some [0, g] \<and> bits s' = 4 \<and>
           repack (Suc (Suc i)) so s' None = Some (Inr (), s')"
proof -
  let ?E = "empty_block_array bm"
  have inv: "array_inv ?E" using empty_inv[OF assms(1)] .
  have wf: "wf_block_map (block_map ?E)" using assms(1) by (simp add: empty_sel)
  have enc: "encode_block (block_map ?E) d = Inr g" using assms(5) by (simp add: empty_sel)
  have n: "n = int (nat n)" "nat n < 4096" using assms(3,4) by simp_all
  have gp: "g \<notin> set [0]" using assms(6) by simp
  obtain s' where s': "setitem (Suc (Suc (Suc j))) so ?E (int (nat n)) d = Some (Inr (), s')"
    "array_inv s'" "block_map s' = block_map ?E"
    "\<forall>i'<4096. gid s' i' = (if i' = nat n then g else gid ?E i')"
    "bits s' = width (block_map ?E) (length [0::int] + 1)"
    "palette s' = (if length [0::int] + 1 \<le> 256 then Some ([0] @ [g]) else None)"
    using setitem_new[OF inv wf n(2) enc empty_sel(4) gp, of j so] by blast
  have two: "length [0::int] + 1 = 2" by simp
  have "bits s' = width (block_map ?E) 2" using s'(5) by (simp only: two)
  then have b: "bits s' = 4" using width_values(1)[of 2] by simp
  have p: "palette s' = Some [0, g]" using s'(6) by simp
  have em: "is_empty ?E" by (simp add: is_empty_def empty_sel)
  have g0: "gid s' i' = (if i' = nat n then g else 0)" if "i' < 4096" for i'
    using s'(4) that is_empty_gid[OF inv em that] by simp
  have "gid s' ` {..<4096} = {g, 0}"
  proof
    show "gid s' ` {..<4096} \<subseteq> {g, 0}" using g0 by auto
    have "gid s' (nat n) = g" using g0[OF n(2)] by simp
    then have a: "g \<in> gid s' ` {..<4096}" using n(2) by (metis imageI lessThan_iff)
    define m where "m = (if nat n = 0 then 1 else (0::nat))"
    have m: "m < 4096" "m \<noteq> nat n" by (simp_all add: m_def)
    then have "gid s' m = 0" using g0[of m] by simp
    then have "0 \<in> gid s' ` {..<4096}" using m(1) by (metis imageI lessThan_iff)
    then show "{g, 0} \<subseteq> gid s' ` {..<4096}" using a by simp
  qed
  then have "card (gid s' ` {..<4096}) = 2" using assms(6) by simp
  then have wd: "bits s' = width (block_map s') (card (gid s' ` {..<4096}))"
    using b width_values(1)[of 2] by simp
  have wf': "wf_block_map (block_map s')" using wf s'(3) by simp
  obtain s2 where s2: "repack (Suc (Suc i)) so s' None = Some (Inr (), s2)"
    "bits s' = width (block_map s') (card (gid s' ` {..<4096})) \<longrightarrow> s2 = s'"
    using repack_none[OF s'(2) wf' assms(2), of i] by blast
  then have "repack (Suc (Suc i)) so s' None = Some (Inr (), s')" using wd by simp
  then show ?thesis using s'(1) n(1) b p by auto
qed

text \<open>
  Claim C6, as the code has it. The width depends on the number of palette entries, not
  on the size of an id. One write of an id other than 0 (300, say) into the empty array
  leaves the palette \<open>[0, id]\<close> and 4 bits, and the \<open>repack()\<close> that follows changes
  nothing. The array leaves the palette for the direct mode, with \<open>max_bits\<close> bits
  (16 for a block map with \<open>max_bits = 16\<close>), at a write that needs a 257th palette
  entry.
\<close>

theorem direct_mode_switch:
  assumes "wf_block_map bm" "set_order_ok so" "3 \<le> k"
  shows "(\<forall>n d g. 0 \<le> n \<and> n < 4096 \<and> encode_block bm d = Inr g \<and> g \<noteq> 0 \<longrightarrow>
            (\<exists>s'. setitem k so (empty_block_array bm) n d = Some (Inr (), s') \<and>
                  palette s' = Some [0, g] \<and> bits s' = 4 \<and>
                  repack k so s' None = Some (Inr (), s'))) \<and>
         (\<forall>s p n d g. reachable so bm s \<and> palette s = Some p \<and> length p = 256 \<and>
              0 \<le> n \<and> n < 4096 \<and> encode_block bm d = Inr g \<and> g \<notin> set p \<longrightarrow>
            (\<exists>s'. setitem k so s n d = Some (Inr (), s') \<and> palette s' = None \<and>
                  bits s' = max_bits bm))"
proof (intro conjI allI impI)
  obtain j where k: "k = Suc (Suc (Suc j))" using fuel3[OF assms(3)] by blast
  {
    fix n :: int and d g
    assume a: "0 \<le> n \<and> n < 4096 \<and> encode_block bm d = Inr g \<and> g \<noteq> 0"
    then have h: "0 \<le> n" "n < 4096" "encode_block bm d = Inr g" "g \<noteq> 0" by blast+
    show "\<exists>s'. setitem k so (empty_block_array bm) n d = Some (Inr (), s') \<and>
                  palette s' = Some [0, g] \<and> bits s' = 4 \<and>
                  repack k so s' None = Some (Inr (), s')"
      using single_write[OF assms(1,2) h, of j "Suc j"] k by simp
  }
  {
    fix s p d g and n :: int
    assume a: "reachable so bm s \<and> palette s = Some p \<and> length p = 256 \<and>
              0 \<le> n \<and> n < 4096 \<and> encode_block bm d = Inr g \<and> g \<notin> set p"
    then have h: "reachable so bm s" "palette s = Some p" "length p = 256" "0 \<le> n" "n < 4096"
      "encode_block bm d = Inr g" "g \<notin> set p" by blast+
    have inv: "array_inv s" and bm: "block_map s = bm"
      using reachable_inv[OF assms(1,2) h(1)] by simp_all
    have wf: "wf_block_map (block_map s)" and enc: "encode_block (block_map s) d = Inr g"
      using assms(1) h(6) bm by simp_all
    have n: "n = int (nat n)" "nat n < 4096" using h(4,5) by simp_all
    obtain s' where s': "setitem (Suc (Suc (Suc j))) so s (int (nat n)) d = Some (Inr (), s')"
      "bits s' = width (block_map s) (length p + 1)"
      "palette s' = (if length p + 1 \<le> 256 then Some (p @ [g]) else None)"
      using setitem_new[OF inv wf n(2) enc h(2,7), of j so] by blast
    have "palette s' = None" "bits s' = max_bits bm"
      using s'(2,3) h(3) bm by (simp_all add: width_def)
    then show "\<exists>s'. setitem k so s n d = Some (Inr (), s') \<and> palette s' = None \<and>
                  bits s' = max_bits bm"
      using s'(1) k n(1) by auto
  }
qed

lemma filling_facts:
  "in_range_writes filling_writes"
  "map (encode_block (opaque_map 16) \<circ> snd) filling_writes = map Inr filling_ids"
  "distinct filling_ids" "0 \<notin> set filling_ids" "length filling_ids \<le> 255"
  "length (0 # filling_ids) = 256" "300 \<notin> set (0 # filling_ids)"
proof -
  show "in_range_writes filling_writes"
    by (auto simp add: in_range_writes_def filling_writes_def)
  show "map (encode_block (opaque_map 16) \<circ> snd) filling_writes = map Inr filling_ids"
    by (simp add: filling_writes_def filling_ids_def opaque_simps)
  show "distinct filling_ids" by (simp add: filling_ids_def distinct_map inj_on_def)
  show "0 \<notin> set filling_ids" by (auto simp add: filling_ids_def)
  show "length filling_ids \<le> 255" by (simp add: filling_ids_def)
  show "length (0 # filling_ids) = 256" by (simp add: filling_ids_def)
  show "300 \<notin> set (0 # filling_ids)" by (auto simp add: filling_ids_def)
qed

lemma filled_state:
  "reachable remdups (opaque_map 16)
     (the (write_all 3 remdups (empty_block_array (opaque_map 16)) filling_writes))"
  "palette (the (write_all 3 remdups (empty_block_array (opaque_map 16)) filling_writes))
     = Some (0 # filling_ids)"
proof -
  have w: "wf_block_map (opaque_map 16)" by (simp add: wf_opaque)
  obtain s' where s': "write_all (Suc (Suc (Suc 0))) remdups (empty_block_array (opaque_map 16))
       filling_writes = Some s'" "palette s' = Some (0 # filling_ids)"
    using fresh_writes_from_empty[OF w filling_facts(1-5), of 0 remdups] by blast
  then have e: "write_all 3 remdups (empty_block_array (opaque_map 16)) filling_writes = Some s'"
    by (simp add: numeral_3_eq_3)
  have "reachable remdups (opaque_map 16) s'"
    using write_all_reachable[OF reachable.reach_empty filling_facts(1) e] .
  then show "reachable remdups (opaque_map 16)
     (the (write_all 3 remdups (empty_block_array (opaque_map 16)) filling_writes))"
    using e by simp
  show "palette (the (write_all 3 remdups (empty_block_array (opaque_map 16)) filling_writes))
     = Some (0 # filling_ids)"
    using e s'(2) by simp
qed

theorem direct_mode_switch_witness:
  "wf_block_map (opaque_map 16) \<and> set_order_ok remdups \<and> (3::nat) \<le> 3 \<and>
   ((0::int) \<le> 0 \<and> (0::int) < 4096 \<and> encode_block (opaque_map 16) 300 = Inr 300 \<and> (300::int) \<noteq> 0) \<and>
   (\<exists>s'. setitem 3 remdups (empty_block_array (opaque_map 16)) 0 300 = Some (Inr (), s') \<and>
         palette s' = Some [0, 300] \<and> bits s' = 4 \<and>
         repack 3 remdups s' None = Some (Inr (), s')) \<and>
   (reachable remdups (opaque_map 16)
      (the (write_all 3 remdups (empty_block_array (opaque_map 16)) filling_writes)) \<and>
    palette (the (write_all 3 remdups (empty_block_array (opaque_map 16)) filling_writes))
      = Some (0 # filling_ids) \<and>
    length (0 # filling_ids) = 256 \<and> (0::int) \<le> 0 \<and> (0::int) < 4096 \<and>
    encode_block (opaque_map 16) 300 = Inr 300 \<and> 300 \<notin> set (0 # filling_ids)) \<and>
   (\<exists>s'. setitem 3 remdups
           (the (write_all 3 remdups (empty_block_array (opaque_map 16)) filling_writes)) 0 300
           = Some (Inr (), s') \<and>
         palette s' = None \<and> bits s' = max_bits (opaque_map 16))"
proof -
  have w: "wf_block_map (opaque_map 16)" by (simp add: wf_opaque)
  have k: "(3::nat) \<le> 3" by simp
  have e: "encode_block (opaque_map 16) 300 = Inr 300" by (simp add: opaque_simps)
  have h1: "(0::int) \<le> 0 \<and> (0::int) < 4096 \<and> encode_block (opaque_map 16) 300 = Inr 300 \<and>
    (300::int) \<noteq> 0" using e by simp
  have h2: "reachable remdups (opaque_map 16)
      (the (write_all 3 remdups (empty_block_array (opaque_map 16)) filling_writes)) \<and>
    palette (the (write_all 3 remdups (empty_block_array (opaque_map 16)) filling_writes))
      = Some (0 # filling_ids) \<and>
    length (0 # filling_ids) = 256 \<and> (0::int) \<le> 0 \<and> (0::int) < 4096 \<and>
    encode_block (opaque_map 16) 300 = Inr 300 \<and> 300 \<notin> set (0 # filling_ids)"
    using filled_state filling_facts(6,7) e by simp
  note t = direct_mode_switch[OF w so_remdups k]
  have c1: "\<exists>s'. setitem 3 remdups (empty_block_array (opaque_map 16)) 0 300 = Some (Inr (), s') \<and>
         palette s' = Some [0, 300] \<and> bits s' = 4 \<and>
         repack 3 remdups s' None = Some (Inr (), s')"
    using t h1 by blast
  have c2: "\<exists>s'. setitem 3 remdups
           (the (write_all 3 remdups (empty_block_array (opaque_map 16)) filling_writes)) 0 300
           = Some (Inr (), s') \<and>
         palette s' = None \<and> bits s' = max_bits (opaque_map 16)"
    using t h2 by blast
  show ?thesis by (intro conjI w so_remdups k h1 c1 h2 c2)
qed

theorem direct_mode_counterexample:
  "palette (snd (the (setitem 3 remdups (empty_block_array (opaque_map 16)) 0 300))) = Some [0, 300] \<and>
   bits (snd (the (setitem 3 remdups (empty_block_array (opaque_map 16)) 0 300))) = 4 \<and>
   max_bits (opaque_map 16) = 16 \<and>
   repack 2 remdups (snd (the (setitem 3 remdups (empty_block_array (opaque_map 16)) 0 300))) None
     = Some (Inr (), snd (the (setitem 3 remdups (empty_block_array (opaque_map 16)) 0 300)))"
proof -
  have w: "wf_block_map (opaque_map 16)" by (simp add: wf_opaque)
  have e: "encode_block (opaque_map 16) 300 = Inr 300" by (simp add: opaque_simps)
  obtain s' where s': "setitem (Suc (Suc (Suc 0))) remdups (empty_block_array (opaque_map 16)) 0 300
       = Some (Inr (), s')" "palette s' = Some [0, 300]" "bits s' = 4"
    "repack (Suc (Suc 0)) remdups s' None = Some (Inr (), s')"
    using single_write[OF w so_remdups _ _ e, of 0 0 0] by auto
  have "snd (the (setitem 3 remdups (empty_block_array (opaque_map 16)) 0 300)) = s'"
    using s'(1) by (simp add: numeral_3_eq_3)
  then show ?thesis using s'(2-4) by (simp add: numeral_2_eq_2 opaque_simps)
qed

end
